theory Spec2Isabelle
  imports Main
begin

section \<open>Data model of hsm.h\<close>

text \<open>
  State kinds and event kinds are the \<open>TypeInfoStorage\<close> tags of the source: opaque values
  compared by equality only. They are the type parameters \<open>'s\<close> and \<open>'e\<close>. A
  \<open>StateFactory\<close> is a stateless singleton per state kind, equal to another factory iff
  their kinds are equal, so a factory is modelled by its kind.
\<close>

datatype Transition_Type = Sibling | No | End

text \<open>\<open>struct Transition\<close>: the tag and a nullable pointer to the target's factory.\<close>

record 's Transition =
  transition_type :: Transition_Type
  state_factory_ptr :: "'s option"

text \<open>
  A state instance: its dynamic type, the depth recorded by \<open>InitState\<close>, and the
  identity of the heap object (an allocation serial number). The back pointer to the
  machine is left out: there is one machine.
\<close>

record 's State =
  state_type :: 's
  stack_depth :: nat
  state_addr :: nat

text \<open>An event handle (\<open>shared_ptr<const Event>\<close>): the kind of the object and its identity.\<close>

record 'e Event =
  event_type :: 'e
  event_addr :: nat

text \<open>What leaves the engine: calls of the user's hooks and handlers, and diagnostics.\<close>

datatype ('s, 'e) call =
    OnEnter "'s State"
  | OnExit "'s State"
  | Dispatched "'s State" "'e Event"
  | Reacted "'s State" "'e Event"
  | NotHandledDiagnostic 'e
  | UnknownEventDiagnostic

text \<open>
  Every way a call can stop the process: a failed \<open>hsm_assert\<close>, or an operation that the
  C++ standard leaves undefined (\<open>front\<close> and \<open>pop_front\<close> of an empty \<open>std::list\<close>).
  The two assertions on the \<open>ABORT_\<close> macros come after a diagnostic has been printed:
  they carry the trace at the abort, the diagnostic included.
\<close>

datatype ('s, 'e) failure =
    assert_state_factory
  | assert_stack_not_empty
  | assert_depth_in_range
  | assert_not_initialized
  | assert_stack_empty
  | assert_event_queue_not_empty
  | assert_event_not_handle "('s, 'e) call list"
  | assert_unknown_event "('s, 'e) call list"
  | undefined_front
  | undefined_pop_front

text \<open>
  \<open>class StateMachine\<close>. The five fields of the source, then the trace of calls made so far
  and the next free allocation number.
\<close>

record ('s, 'e) StateMachine =
  owner :: nat
  initial_transition :: "'s Transition"
  state_stack :: "'s State list"
  event_queue :: "'e Event list"
  deferred_queue :: "'e Event list"
  trace :: "('s, 'e) call list"
  heap_next :: nat

text \<open>
  The body of a \<open>react\<close> overload. The source requires it to end in
  \<open>return finish()\<close>, \<open>discard()\<close>, \<open>transit<T>()\<close> or \<open>defer()\<close>; a claimed kind
  without an overload of its own falls to \<open>react(const Event&)\<close> of \<open>state_base\<close>.
\<close>

datatype 's reaction = Finish | Discard | Transit 's | Defer | NoOverload

text \<open>
  The state kinds a user declares: for each kind its \<open>reactions\<close> list, its \<open>react\<close>
  overloads and the \<open>InitType\<close> parameter of \<open>state_base\<close> (the kind itself when none is
  given). The default \<open>reactions\<close>, \<open>hsm_vector<Event>\<close>, names only the base class, whose
  type no cloned event has; it is the empty list here.
\<close>

record ('s, 'e) program =
  reactions :: "'s \<Rightarrow> 'e list"
  react_body :: "'s \<Rightarrow> 'e \<Rightarrow> 's reaction"
  InitType :: "'s \<Rightarrow> 's"

text \<open>The two macros at the top of hsm.h (both \<open>true\<close> there).\<close>

record config =
  ABORT_WHEN_AN_EVENT_NOT_HANDLE :: bool
  ABORT_WHEN_RECEIVE_UNKNOWN_EVENT :: bool

definition hsm_config :: config where
  "hsm_config = \<lparr>ABORT_WHEN_AN_EVENT_NOT_HANDLE = True, ABORT_WHEN_RECEIVE_UNKNOWN_EVENT = True\<rparr>"

section \<open>Transitions\<close>

definition SiblingTransition :: "'s \<Rightarrow> 's Transition" where
  "SiblingTransition stateFactory =
     \<lparr>transition_type = Sibling, state_factory_ptr = Some stateFactory\<rparr>"

definition NoTransition :: "'s Transition" where
  "NoTransition = \<lparr>transition_type = No, state_factory_ptr = None\<rparr>"

definition EndTransition :: "'s Transition" where
  "EndTransition = \<lparr>transition_type = End, state_factory_ptr = None\<rparr>"

definition IsSibling :: "'s Transition \<Rightarrow> bool" where
  "IsSibling t = (transition_type t = Sibling)"

definition IsNo :: "'s Transition \<Rightarrow> bool" where
  "IsNo t = (transition_type t = No)"

definition state_factory :: "'s Transition \<Rightarrow> ('s, 'e) failure + 's" where
  "state_factory t =
     (case state_factory_ptr t of None \<Rightarrow> Inl assert_state_factory | Some f \<Rightarrow> Inr f)"

section \<open>The machine as constructed\<close>

definition StateMachine_new :: "nat \<Rightarrow> ('s, 'e) StateMachine" where
  "StateMachine_new h =
     \<lparr>owner = 0, initial_transition = NoTransition, state_stack = [], event_queue = [],
      deferred_queue = [], trace = [], heap_next = h\<rparr>"

section \<open>Creating and initialising states\<close>

definition InitState :: "'s State \<Rightarrow> nat \<Rightarrow> 's State" where
  "InitState state depth = state\<lparr>stack_depth := depth\<rparr>"

text \<open>\<open>AllocateState\<close> runs \<open>State()\<close>, which sets the depth to 0, on a new object.\<close>

definition AllocateState :: "'s \<Rightarrow> nat \<Rightarrow> 's State" where
  "AllocateState k a = \<lparr>state_type = k, stack_depth = 0, state_addr = a\<rparr>"

definition CreateState ::
  "'s Transition \<Rightarrow> ('s, 'e) StateMachine \<Rightarrow> nat \<Rightarrow> ('s, 'e) failure + ('s State \<times> ('s, 'e) StateMachine)"
where
  "CreateState transition m depth =
     (case state_factory transition of
        Inl f \<Rightarrow> Inl f
      | Inr k \<Rightarrow>
          Inr (InitState (AllocateState k (heap_next m)) depth,
               m\<lparr>heap_next := Suc (heap_next m)\<rparr>))"

definition HasInitializeState :: "('s, 'e) program \<Rightarrow> 's State \<Rightarrow> bool" where
  "HasInitializeState P state = (InitType P (state_type state) \<noteq> state_type state)"

definition GetInitializeState :: "('s, 'e) program \<Rightarrow> 's State \<Rightarrow> 's Transition" where
  "GetInitializeState P state = SiblingTransition (InitType P (state_type state))"

section \<open>Deferral and the handlers\<close>

definition DeferEvent :: "('s, 'e) StateMachine \<Rightarrow> ('s, 'e) failure + ('s, 'e) StateMachine" where
  "DeferEvent m =
     (case event_queue m of
        [] \<Rightarrow> Inl assert_event_queue_not_empty
      | front # _ \<Rightarrow> Inr (m\<lparr>deferred_queue := deferred_queue m @ [front]\<rparr>))"

definition finish :: "('s, 'e) StateMachine \<Rightarrow> ('s, 'e) failure + ('s Transition \<times> ('s, 'e) StateMachine)" where
  "finish m = Inr (NoTransition, m)"

definition discard :: "('s, 'e) StateMachine \<Rightarrow> ('s, 'e) failure + ('s Transition \<times> ('s, 'e) StateMachine)" where
  "discard m = Inr (NoTransition, m)"

definition transit ::
  "'s \<Rightarrow> ('s, 'e) StateMachine \<Rightarrow> ('s, 'e) failure + ('s Transition \<times> ('s, 'e) StateMachine)" where
  "transit target m = Inr (SiblingTransition target, m)"

definition State_defer :: "('s, 'e) StateMachine \<Rightarrow> ('s, 'e) failure + ('s Transition \<times> ('s, 'e) StateMachine)" where
  "State_defer m = (case DeferEvent m of Inl f \<Rightarrow> Inl f | Inr m' \<Rightarrow> Inr (NoTransition, m'))"

text \<open>\<open>state_base::react(const Event&)\<close>: the diagnostic, the assertion, no transition.\<close>

definition react_default ::
  "config \<Rightarrow> 'e Event \<Rightarrow> ('s, 'e) StateMachine \<Rightarrow> ('s, 'e) failure + ('s Transition \<times> ('s, 'e) StateMachine)"
where
  "react_default cfg e m =
     (let m' = m\<lparr>trace := trace m @ [NotHandledDiagnostic (event_type e)]\<rparr>
      in if ABORT_WHEN_AN_EVENT_NOT_HANDLE cfg then Inl (assert_event_not_handle (trace m'))
         else Inr (NoTransition, m'))"

text \<open>
  The call \<open>static_cast<SelfType*>(s)->react(event)\<close> made for the claimed kind \<open>Begin\<close>:
  overload resolution on \<open>Begin\<close> picks the body.
\<close>

definition react ::
  "('s, 'e) program \<Rightarrow> config \<Rightarrow> 's State \<Rightarrow> 'e \<Rightarrow> 'e Event \<Rightarrow> ('s, 'e) StateMachine
   \<Rightarrow> ('s, 'e) failure + ('s Transition \<times> ('s, 'e) StateMachine)"
where
  "react P cfg s Begin e m =
     (let m' = m\<lparr>trace := trace m @ [Reacted s e]\<rparr>
      in case react_body P (state_type s) Begin of
           Finish \<Rightarrow> finish m'
         | Discard \<Rightarrow> discard m'
         | Transit target \<Rightarrow> transit target m'
         | Defer \<Rightarrow> State_defer m'
         | NoOverload \<Rightarrow> react_default cfg e m')"

section \<open>Capability dispatch\<close>

text \<open>
  \<open>DispatchImpl<Begin, End, Sequence>\<close>, with \<open>Begin\<close> the front of \<open>Sequence\<close>. The
  specialisation \<open>DispatchImpl<End, End, Sequence>\<close> is chosen when the type \<open>Begin\<close> is the
  type \<open>End\<close> (here \<open>EndT\<close>), whatever is left of the sequence.
\<close>

fun DispatchImpl ::
  "('s, 'e) program \<Rightarrow> config \<Rightarrow> 'e \<Rightarrow> 'e list \<Rightarrow> 's State \<Rightarrow> 'e Event \<Rightarrow> ('s, 'e) StateMachine
   \<Rightarrow> ('s, 'e) failure + ('s Transition \<times> ('s, 'e) StateMachine)"
where
  "DispatchImpl P cfg EndT [] s e m = Inr (EndTransition, m)"
| "DispatchImpl P cfg EndT (Begin # rest) s e m =
     (if Begin = EndT then
        (if EndT = event_type e then react P cfg s EndT e m else Inr (EndTransition, m))
      else if Begin = event_type e then react P cfg s Begin e m
      else DispatchImpl P cfg EndT rest s e m)"

definition Dispatch ::
  "('s, 'e) program \<Rightarrow> config \<Rightarrow> 's State \<Rightarrow> 'e Event \<Rightarrow> ('s, 'e) StateMachine
   \<Rightarrow> ('s, 'e) failure + ('s Transition \<times> ('s, 'e) StateMachine)"
where
  "Dispatch P cfg s e m =
     (let m' = m\<lparr>trace := trace m @ [Dispatched s e]\<rparr>
      in case reactions P (state_type s) of
           [] \<Rightarrow> Inr (EndTransition, m')
         | first # rest \<Rightarrow> DispatchImpl P cfg (last (first # rest)) (first # rest) s e m')"

section \<open>The state stack\<close>

definition InvokeOnEnter :: "'s State \<Rightarrow> ('s, 'e) StateMachine \<Rightarrow> ('s, 'e) StateMachine" where
  "InvokeOnEnter state m = m\<lparr>trace := trace m @ [OnEnter state]\<rparr>"

definition InvokeOnExit :: "'s State \<Rightarrow> ('s, 'e) StateMachine \<Rightarrow> ('s, 'e) StateMachine" where
  "InvokeOnExit state m = m\<lparr>trace := trace m @ [OnExit state]\<rparr>"

definition PopState :: "('s, 'e) StateMachine \<Rightarrow> ('s, 'e) failure + ('s, 'e) StateMachine" where
  "PopState m =
     (if state_stack m = [] then Inl assert_stack_not_empty
      else let state = last (state_stack m);
               m1 = InvokeOnExit state m
           in Inr (m1\<lparr>state_stack := butlast (state_stack m1)\<rparr>))"

text \<open>The loop of \<open>PopStateAtDepth\<close>: \<open>for (int i = size - 1; i >= depth; --i) PopState();\<close>\<close>

function PopStateAtDepth_loop ::
  "int \<Rightarrow> int \<Rightarrow> ('s, 'e) StateMachine \<Rightarrow> ('s, 'e) failure + ('s, 'e) StateMachine"
where
  "PopStateAtDepth_loop i depth m =
     (if i \<ge> depth then
        (case PopState m of Inl f \<Rightarrow> Inl f | Inr m' \<Rightarrow> PopStateAtDepth_loop (i - 1) depth m')
      else Inr m)"
  by pat_completeness auto
termination
  by (relation "measure (\<lambda>(i, depth, m). nat (i - depth + 1))") auto

declare PopStateAtDepth_loop.simps [simp del]

text \<open>
  The first assertion compares the \<open>int\<close> with a \<open>size_t\<close>, so a negative depth, converted
  to unsigned, fails it.
\<close>

definition PopStateAtDepth :: "int \<Rightarrow> ('s, 'e) StateMachine \<Rightarrow> ('s, 'e) failure + ('s, 'e) StateMachine" where
  "PopStateAtDepth depth m =
     (if \<not> (0 \<le> depth \<and> depth < int (length (state_stack m))) then Inl assert_depth_in_range
      else if \<not> depth \<ge> 0 then Inl assert_depth_in_range
      else PopStateAtDepth_loop (int (length (state_stack m)) - 1) depth m)"

definition GetStateAtDepth :: "('s, 'e) StateMachine \<Rightarrow> nat \<Rightarrow> ('s, 'e) failure + 's State" where
  "GetStateAtDepth m depth =
     (if depth < length (state_stack m) then Inr (state_stack m ! depth)
      else Inl assert_depth_in_range)"

section \<open>Pushing, with the cascade into initial substates\<close>

text \<open>
  \<open>PushState\<close> and \<open>CreateAndPushInitialState\<close> call each other for as long as the state
  just pushed declares an initial substate. Nothing in the source bounds that chain, so
  the model carries fuel: \<open>None\<close> is a chain longer than the fuel.
\<close>

fun PushState ::
  "nat \<Rightarrow> ('s, 'e) program \<Rightarrow> 's State \<Rightarrow> ('s, 'e) StateMachine
   \<Rightarrow> (('s, 'e) failure + ('s, 'e) StateMachine) option"
and CreateAndPushInitialState ::
  "nat \<Rightarrow> ('s, 'e) program \<Rightarrow> 's Transition \<Rightarrow> ('s, 'e) StateMachine
   \<Rightarrow> (('s, 'e) failure + ('s, 'e) StateMachine) option"
where
  "PushState n P state m =
     (let m1 = m\<lparr>state_stack := state_stack m @ [state]\<rparr>;
          m2 = InvokeOnEnter state m1
      in if HasInitializeState P state
         then CreateAndPushInitialState n P (GetInitializeState P state) m2
         else Some (Inr m2))"
| "CreateAndPushInitialState 0 P transition m = None"
| "CreateAndPushInitialState (Suc n) P transition m =
     (case CreateState transition m 0 of
        Inl f \<Rightarrow> Some (Inl f)
      | Inr (initial_state, m') \<Rightarrow> PushState n P initial_state m')"

section \<open>Lifecycle\<close>

definition initialize ::
  "nat \<Rightarrow> ('s, 'e) program \<Rightarrow> 's \<Rightarrow> nat \<Rightarrow> ('s, 'e) StateMachine
   \<Rightarrow> (('s, 'e) failure + ('s, 'e) StateMachine) option"
where
  "initialize n P InitialStateType owner_ptr m =
     (if \<not> IsNo (initial_transition m) then Some (Inl assert_not_initialized)
      else if state_stack m \<noteq> [] then Some (Inl assert_stack_empty)
      else let m1 = m\<lparr>initial_transition := SiblingTransition InitialStateType,
                       owner := owner_ptr\<rparr>
           in CreateAndPushInitialState n P (initial_transition m1) m1)"

definition stop :: "('s, 'e) StateMachine \<Rightarrow> ('s, 'e) failure + ('s, 'e) StateMachine" where
  "stop m =
     (case (if length (state_stack m) > 0 then PopStateAtDepth 0 m else Inr m) of
        Inl f \<Rightarrow> Inl f
      | Inr m' \<Rightarrow> if state_stack m' = [] then Inr m' else Inl assert_stack_empty)"

section \<open>Dispatching the front event and replaying the deferred ones\<close>

text \<open>
  \<open>ProcessQueueEvent_from n P cfg depth\<close> is the \<open>for\<close> loop of \<open>ProcessQueueEvent\<close> from
  \<open>depth\<close> on, and \<open>ProcessDeferredEvent_from n P cfg i\<close> the loop of
  \<open>ProcessDeferredEvent\<close> with \<open>i\<close> iterations left. The two functions call each other
  without a bound in the source; the fuel \<open>n\<close> bounds how deep replays nest (and the
  cascade of every push), and \<open>None\<close> is a run that needs more.
\<close>

function ProcessQueueEvent_from ::
  "nat \<Rightarrow> ('s, 'e) program \<Rightarrow> config \<Rightarrow> nat \<Rightarrow> ('s, 'e) StateMachine
   \<Rightarrow> (('s, 'e) failure + ('s, 'e) StateMachine) option"
and ProcessDeferredEvent_from ::
  "nat \<Rightarrow> ('s, 'e) program \<Rightarrow> config \<Rightarrow> nat \<Rightarrow> ('s, 'e) StateMachine
   \<Rightarrow> (('s, 'e) failure + ('s, 'e) StateMachine) option"
where
  "ProcessQueueEvent_from n P cfg depth m =
     (if depth < length (state_stack m) then
        (case GetStateAtDepth m depth of
           Inl f \<Rightarrow> Some (Inl f)
         | Inr state \<Rightarrow>
        (case event_queue m of
           [] \<Rightarrow> Some (Inl undefined_front)
         | front # _ \<Rightarrow>
        (case Dispatch P cfg state front m of
           Inl f \<Rightarrow> Some (Inl f)
         | Inr (transition, m1) \<Rightarrow>
        (case transition_type transition of
           End \<Rightarrow> ProcessQueueEvent_from n P cfg (depth + 1) m1
         | No \<Rightarrow> Some (Inr m1)
         | Sibling \<Rightarrow>
        (case PopStateAtDepth (int depth) m1 of
           Inl f \<Rightarrow> Some (Inl f)
         | Inr m2 \<Rightarrow>
        (case CreateState transition m2 depth of
           Inl f \<Rightarrow> Some (Inl f)
         | Inr (target_state, m3) \<Rightarrow>
        (case PushState n P target_state m3 of
           None \<Rightarrow> None
         | Some (Inl f) \<Rightarrow> Some (Inl f)
         | Some (Inr m4) \<Rightarrow>
             ProcessDeferredEvent_from n P cfg (length (deferred_queue m4)) m4)))))))
      else
        (let m' = m\<lparr>trace := trace m @ [UnknownEventDiagnostic]\<rparr>
         in if ABORT_WHEN_RECEIVE_UNKNOWN_EVENT cfg
            then Some (Inl (assert_unknown_event (trace m')))
            else Some (Inr m')))"
| "ProcessDeferredEvent_from n P cfg i m =
     (if i > 0 then
        (case deferred_queue m of
           [] \<Rightarrow> Some (Inl undefined_front)
         | d # _ \<Rightarrow>
        (case n of
           0 \<Rightarrow> None
         | Suc k \<Rightarrow>
        (case ProcessQueueEvent_from k P cfg 0 (m\<lparr>event_queue := d # event_queue m\<rparr>) of
           None \<Rightarrow> None
         | Some (Inl f) \<Rightarrow> Some (Inl f)
         | Some (Inr m1) \<Rightarrow>
        (case deferred_queue m1 of
           [] \<Rightarrow> Some (Inl undefined_pop_front)
         | _ # dq \<Rightarrow>
        (case event_queue m1 of
           [] \<Rightarrow> Some (Inl undefined_pop_front)
         | _ # eq \<Rightarrow>
             ProcessDeferredEvent_from n P cfg (i - 1)
               (m1\<lparr>deferred_queue := dq, event_queue := eq\<rparr>))))))
      else Some (Inr m))"
  by pat_completeness auto
termination
proof -
  have r: "state_stack m' = state_stack m"
    if "react P cfg s b e m = Inr (t, m')"
    for P :: "('s, 'e) program" and cfg s b e m t m'
    using that
    by (auto simp: react_def finish_def discard_def transit_def State_defer_def DeferEvent_def
          react_default_def Let_def split: reaction.splits list.splits if_splits)
  have i: "state_stack m' = state_stack m"
    if "DispatchImpl P cfg l xs s e m = Inr (t, m')"
    for P :: "('s, 'e) program" and cfg l xs s e m t m'
    using that by (induction xs) (auto split: if_splits dest: r)
  have d: "state_stack m' = state_stack m"
    if "Dispatch P cfg s e m = Inr (t, m')"
    for P :: "('s, 'e) program" and cfg s e m t m'
    using that unfolding Dispatch_def Let_def
    by (cases "reactions P (state_type s)") (auto simp del: DispatchImpl.simps dest!: i)
  show ?thesis
    by (relation "measures
          [\<lambda>x. case x of Inl (n, _) \<Rightarrow> n | Inr (n, _) \<Rightarrow> n,
           \<lambda>x. case x of Inl _ \<Rightarrow> Suc 0 | Inr _ \<Rightarrow> 0,
           \<lambda>x. case x of Inl (n, P, cfg, depth, m) \<Rightarrow> length (state_stack m) - depth
                        | Inr (n, P, cfg, i, m) \<Rightarrow> i]")
       (auto dest: d)
qed

declare ProcessQueueEvent_from.simps [simp del]
declare ProcessDeferredEvent_from.simps [simp del]

definition ProcessQueueEvent ::
  "nat \<Rightarrow> ('s, 'e) program \<Rightarrow> config \<Rightarrow> ('s, 'e) StateMachine
   \<Rightarrow> (('s, 'e) failure + ('s, 'e) StateMachine) option"
where
  "ProcessQueueEvent n P cfg m = ProcessQueueEvent_from n P cfg 0 m"

definition ProcessDeferredEvent ::
  "nat \<Rightarrow> ('s, 'e) program \<Rightarrow> config \<Rightarrow> ('s, 'e) StateMachine
   \<Rightarrow> (('s, 'e) failure + ('s, 'e) StateMachine) option"
where
  "ProcessDeferredEvent n P cfg m =
     ProcessDeferredEvent_from n P cfg (length (deferred_queue m)) m"

section \<open>process\_event\<close>

definition Clone :: "'e Event \<Rightarrow> nat \<Rightarrow> 'e Event" where
  "Clone e a = \<lparr>event_type = event_type e, event_addr = a\<rparr>"

text \<open>The \<open>while (!event_queue_.empty())\<close> loop; one unit of fuel per iteration.\<close>

fun process_event_loop ::
  "nat \<Rightarrow> ('s, 'e) program \<Rightarrow> config \<Rightarrow> ('s, 'e) StateMachine
   \<Rightarrow> (('s, 'e) failure + ('s, 'e) StateMachine) option"
where
  "process_event_loop 0 P cfg m = (if event_queue m \<noteq> [] then None else Some (Inr m))"
| "process_event_loop (Suc n) P cfg m =
     (if event_queue m \<noteq> [] then
        (case ProcessQueueEvent n P cfg m of
           None \<Rightarrow> None
         | Some (Inl f) \<Rightarrow> Some (Inl f)
         | Some (Inr m1) \<Rightarrow>
        (case event_queue m1 of
           [] \<Rightarrow> Some (Inl undefined_pop_front)
         | _ # q \<Rightarrow> process_event_loop n P cfg (m1\<lparr>event_queue := q\<rparr>)))
      else Some (Inr m))"

definition process_event ::
  "nat \<Rightarrow> ('s, 'e) program \<Rightarrow> config \<Rightarrow> 'e Event \<Rightarrow> ('s, 'e) StateMachine
   \<Rightarrow> (('s, 'e) failure + ('s, 'e) StateMachine) option"
where
  "process_event n P cfg event m =
     process_event_loop n P cfg
       (m\<lparr>event_queue := event_queue m @ [Clone event (heap_next m)],
          heap_next := Suc (heap_next m)\<rparr>)"

section \<open>The machine of test.cc\<close>

datatype MyStates = First | Second | Third

datatype MyEvent = event_open | event_close

definition test_program :: "(MyStates, MyEvent) program" where
  "test_program =
     \<lparr>reactions = (\<lambda>s. case s of
          First \<Rightarrow> [] | Second \<Rightarrow> [event_open, event_close] | Third \<Rightarrow> [event_close]),
      react_body = (\<lambda>s e. case (s, e) of
          (Second, event_open) \<Rightarrow> Transit Third
        | (Second, event_close) \<Rightarrow> Defer
        | (Third, event_close) \<Rightarrow> Finish
        | _ \<Rightarrow> NoOverload),
      InitType = (\<lambda>s. case s of First \<Rightarrow> Second | Second \<Rightarrow> Second | Third \<Rightarrow> Third)\<rparr>"

section \<open>Vocabulary of the properties\<close>

text \<open>
  The kinds of a state and of the initial substates entered below it: each next kind is
  the declared initial substate of the one before and differs from it, and the last one
  declares none (its \<open>InitType\<close> is itself).
\<close>

fun is_cascade :: "('s, 'e) program \<Rightarrow> 's list \<Rightarrow> bool" where
  "is_cascade P [] = False"
| "is_cascade P [k] = (InitType P k = k)"
| "is_cascade P (k # k' # ks) =
     (InitType P k \<noteq> k \<and> k' = InitType P k \<and> is_cascade P (k' # ks))"

text \<open>The machine of test.cc after \<open>initialize<First>\<close>, and its two states.\<close>

definition first_state :: "MyStates State" where
  "first_state = \<lparr>state_type = First, stack_depth = 0, state_addr = 0\<rparr>"

definition second_state :: "MyStates State" where
  "second_state = \<lparr>state_type = Second, stack_depth = 0, state_addr = 1\<rparr>"

definition test_machine :: "(MyStates, MyEvent) StateMachine" where
  "test_machine =
     \<lparr>owner = 7, initial_transition = SiblingTransition First,
      state_stack = [first_state, second_state], event_queue = [], deferred_queue = [],
      trace = [OnEnter first_state, OnEnter second_state], heap_next = 2\<rparr>"

text \<open>
  The events of the runs below: the caller's objects, and the clones the engine makes of
  them, named by the allocation that creates them. Then the machines those runs pass
  through: after \<open>initialize<First>\<close>, after one and after two deferred
  \<open>event_close\<close>, and after the transition to \<open>Second\<close> that \<open>event_open\<close> causes.
\<close>

definition caller_close :: "MyEvent Event" where
  "caller_close = \<lparr>event_type = event_close, event_addr = 100\<rparr>"

definition caller_open :: "MyEvent Event" where
  "caller_open = \<lparr>event_type = event_open, event_addr = 101\<rparr>"

definition close_A :: "MyEvent Event" where
  "close_A = \<lparr>event_type = event_close, event_addr = 1\<rparr>"

definition close_B :: "MyEvent Event" where
  "close_B = \<lparr>event_type = event_close, event_addr = 2\<rparr>"

definition open_E :: "MyEvent Event" where
  "open_E = \<lparr>event_type = event_open, event_addr = 3\<rparr>"

definition started_machine :: "(MyStates, MyEvent) StateMachine" where
  "started_machine =
     \<lparr>owner = 7, initial_transition = SiblingTransition First, state_stack = [first_state],
      event_queue = [], deferred_queue = [], trace = [OnEnter first_state], heap_next = 1\<rparr>"

definition deferred_one :: "(MyStates, MyEvent) StateMachine" where
  "deferred_one =
     started_machine
       \<lparr>deferred_queue := [close_A],
        trace := trace started_machine @ [Dispatched first_state close_A, Reacted first_state close_A],
        heap_next := 2\<rparr>"

definition deferred_two :: "(MyStates, MyEvent) StateMachine" where
  "deferred_two =
     deferred_one
       \<lparr>deferred_queue := [close_A, close_B],
        trace := trace deferred_one @ [Dispatched first_state close_B, Reacted first_state close_B],
        heap_next := 3\<rparr>"

definition after_transition :: "(MyStates, MyEvent) StateMachine" where
  "after_transition =
     deferred_two
       \<lparr>state_stack := [\<lparr>state_type = Second, stack_depth = 0, state_addr = 4\<rparr>],
        event_queue := [open_E],
        trace := trace deferred_two @
          [Dispatched first_state open_E, Reacted first_state open_E, OnExit first_state,
           OnEnter \<lparr>state_type = Second, stack_depth = 0, state_addr = 4\<rparr>],
        heap_next := 5\<rparr>"

text \<open>
  Two variants of the machine of test.cc. In the first, \<open>Third\<close> answers \<open>event_close\<close>
  by \<open>transit<First>()\<close> instead of \<open>finish()\<close>; \<open>third_state\<close> is the instance of
  \<open>Third\<close> that \<open>event_open\<close> pushes there. In the second, the \<open>reactions\<close> of \<open>Second\<close>
  are written \<open>hsm_vector<event_open, event_close, event_open>\<close>.
\<close>

definition reentry_program :: "(MyStates, MyEvent) program" where
  "reentry_program =
     \<lparr>reactions = (\<lambda>s. case s of
          First \<Rightarrow> [] | Second \<Rightarrow> [event_open, event_close] | Third \<Rightarrow> [event_close]),
      react_body = (\<lambda>s e. case (s, e) of
          (Second, event_open) \<Rightarrow> Transit Third
        | (Second, event_close) \<Rightarrow> Defer
        | (Third, event_close) \<Rightarrow> Transit First
        | _ \<Rightarrow> NoOverload),
      InitType = (\<lambda>s. case s of First \<Rightarrow> Second | Second \<Rightarrow> Second | Third \<Rightarrow> Third)\<rparr>"

definition repeated_kind_program :: "(MyStates, MyEvent) program" where
  "repeated_kind_program =
     \<lparr>reactions = (\<lambda>s. case s of
          First \<Rightarrow> [] | Second \<Rightarrow> [event_open, event_close, event_open]
        | Third \<Rightarrow> [event_close]),
      react_body = (\<lambda>s e. case (s, e) of
          (Second, event_open) \<Rightarrow> Transit Third
        | (Second, event_close) \<Rightarrow> Defer
        | (Third, event_close) \<Rightarrow> Finish
        | _ \<Rightarrow> NoOverload),
      InitType = (\<lambda>s. case s of First \<Rightarrow> Second | Second \<Rightarrow> Second | Third \<Rightarrow> Third)\<rparr>"

definition third_state :: "MyStates State" where
  "third_state = \<lparr>state_type = Third, stack_depth = 1, state_addr = 4\<rparr>"

text \<open>The states that were offered an event, with the event, in the order of the calls.\<close>

definition consulted :: "('s, 'e) call list \<Rightarrow> ('s State \<times> 'e Event) list" where
  "consulted tr = concat (map (\<lambda>c. case c of Dispatched s e \<Rightarrow> [(s, e)] | _ \<Rightarrow> []) tr)"

text \<open>
  Two more machines over the kinds of test.cc, none with initial substates. In the first,
  \<open>First\<close> defers \<open>event_close\<close> and goes to \<open>Second\<close> on \<open>event_open\<close>, and \<open>Second\<close>
  answers \<open>event_close\<close> by a transition to \<open>Second\<close>. In the second, \<open>Second\<close> answers
  \<open>event_close\<close> by a transition to \<open>Third\<close>, which finishes it.
\<close>

definition replay_loop_program :: "(MyStates, MyEvent) program" where
  "replay_loop_program =
     \<lparr>reactions = (\<lambda>s. case s of
          First \<Rightarrow> [event_open, event_close] | Second \<Rightarrow> [event_close] | Third \<Rightarrow> []),
      react_body = (\<lambda>s e. case (s, e) of
          (First, event_open) \<Rightarrow> Transit Second
        | (First, event_close) \<Rightarrow> Defer
        | (Second, event_close) \<Rightarrow> Transit Second
        | _ \<Rightarrow> NoOverload),
      InitType = (\<lambda>s. s)\<rparr>"

definition nested_replay_program :: "(MyStates, MyEvent) program" where
  "nested_replay_program =
     \<lparr>reactions = (\<lambda>s. case s of
          First \<Rightarrow> [event_open, event_close] | Second \<Rightarrow> [event_close]
        | Third \<Rightarrow> [event_close]),
      react_body = (\<lambda>s e. case (s, e) of
          (First, event_open) \<Rightarrow> Transit Second
        | (First, event_close) \<Rightarrow> Defer
        | (Second, event_close) \<Rightarrow> Transit Third
        | (Third, event_close) \<Rightarrow> Finish
        | _ \<Rightarrow> NoOverload),
      InitType = (\<lambda>s. s)\<rparr>"

section \<open>Deferring the event being dispatched\<close>

text \<open>
  C10. A call of \<open>defer()\<close> while the event queue is empty fails the assertion of
  \<open>DeferEvent\<close>. Otherwise it returns the no-change transition and appends the handle at
  the front of the event queue, that very handle, to the back of the deferred queue:
  nothing is allocated, and the state stack and the event queue stay as they were.
\<close>

theorem defer_appends_front_handle:
  "(event_queue m = [] \<longrightarrow> State_defer m = Inl assert_event_queue_not_empty) \<and>
   (\<forall>front rest. event_queue m = front # rest \<longrightarrow>
      (\<exists>m'. State_defer m = Inr (NoTransition, m') \<and>
            deferred_queue m' = deferred_queue m @ [front] \<and>
            state_stack m' = state_stack m \<and>
            event_queue m' = event_queue m \<and>
            heap_next m' = heap_next m \<and>
            trace m' = trace m \<and>
            owner m' = owner m \<and>
            initial_transition m' = initial_transition m))"
  by (auto simp: State_defer_def DeferEvent_def split: list.splits)

theorem defer_appends_front_handle_witness:
  "State_defer (StateMachine_new 0 :: (MyStates, MyEvent) StateMachine)
     = Inl assert_event_queue_not_empty \<and>
   (\<exists>m'. State_defer ((StateMachine_new 0 :: (MyStates, MyEvent) StateMachine)
                \<lparr>event_queue := [\<lparr>event_type = event_close, event_addr = 5\<rparr>]\<rparr>)
           = Inr (NoTransition, m') \<and>
         deferred_queue m' = [\<lparr>event_type = event_close, event_addr = 5\<rparr>] \<and>
         heap_next m' = 0)"
  using defer_appends_front_handle [of "StateMachine_new 0 :: (MyStates, MyEvent) StateMachine"]
    defer_appends_front_handle [of "(StateMachine_new 0 :: (MyStates, MyEvent) StateMachine)
                \<lparr>event_queue := [\<lparr>event_type = event_close, event_addr = 5\<rparr>]\<rparr>"]
  by (auto simp: StateMachine_new_def)

section \<open>Offering an event to one state\<close>

lemma DispatchImpl_no_claim:
  "k \<notin> set xs \<Longrightarrow> event_type e = k \<Longrightarrow> DispatchImpl P cfg l xs s e m = Inr (EndTransition, m)"
  by (induction xs) auto

lemma DispatchImpl_claimed:
  "distinct xs \<Longrightarrow> xs \<noteq> [] \<Longrightarrow> event_type e \<in> set xs \<Longrightarrow>
   DispatchImpl P cfg (last xs) xs s e m = react P cfg s (event_type e) e m"
proof (induction xs)
  case Nil
  then show ?case by simp
next
  case (Cons x xs)
  show ?case
  proof (cases "xs = []")
    case True
    with Cons.prems show ?thesis by simp
  next
    case False
    with Cons.prems have nl: "x \<noteq> last xs" by auto
    show ?thesis
    proof (cases "x = event_type e")
      case True
      with nl False show ?thesis by simp
    next
      case False
      with Cons nl \<open>xs \<noteq> []\<close> show ?thesis by simp
    qed
  qed
qed

text \<open>
  When no kind is listed twice, offering an event to the state runs the handler of the
  claimed kind equal to the event's kind and returns its transition, and returns the
  not-handled transition, having run no handler, when no claimed kind equals it.
\<close>

lemma Dispatch_first_match:
  assumes "distinct (reactions P (state_type s))"
  shows "Dispatch P cfg s e m =
     (if event_type e \<in> set (reactions P (state_type s))
      then react P cfg s (event_type e) e (m\<lparr>trace := trace m @ [Dispatched s e]\<rparr>)
      else Inr (EndTransition, m\<lparr>trace := trace m @ [Dispatched s e]\<rparr>))"
proof (cases "reactions P (state_type s)")
  case Nil
  then show ?thesis by (simp add: Dispatch_def)
next
  case (Cons x xs)
  let ?m = "m\<lparr>trace := trace m @ [Dispatched s e]\<rparr>"
  show ?thesis
  proof (cases "event_type e \<in> set (reactions P (state_type s))")
    case True
    have "DispatchImpl P cfg (last (x # xs)) (x # xs) s e ?m = react P cfg s (event_type e) e ?m"
      using assms True Cons by (intro DispatchImpl_claimed) auto
    with True Cons show ?thesis by (simp add: Dispatch_def Let_def del: DispatchImpl.simps)
  next
    case False
    then have "DispatchImpl P cfg (last (x # xs)) (x # xs) s e ?m = Inr (EndTransition, ?m)"
      using Cons by (intro DispatchImpl_no_claim) auto
    with False Cons show ?thesis by (simp add: Dispatch_def Let_def del: DispatchImpl.simps)
  qed
qed

lemma Dispatch_first_match_test_cc:
  "distinct (reactions test_program Second) \<and>
   Dispatch test_program hsm_config
     \<lparr>state_type = Second, stack_depth = 0, state_addr = 1\<rparr>
     \<lparr>event_type = event_close, event_addr = 2\<rparr>
     ((StateMachine_new 3 :: (MyStates, MyEvent) StateMachine)
        \<lparr>event_queue := [\<lparr>event_type = event_close, event_addr = 2\<rparr>]\<rparr>)
   = Inr (NoTransition,
       (StateMachine_new 3 :: (MyStates, MyEvent) StateMachine)
        \<lparr>event_queue := [\<lparr>event_type = event_close, event_addr = 2\<rparr>],
         deferred_queue := [\<lparr>event_type = event_close, event_addr = 2\<rparr>],
         trace := [Dispatched \<lparr>state_type = Second, stack_depth = 0, state_addr = 1\<rparr>
                     \<lparr>event_type = event_close, event_addr = 2\<rparr>,
                   Reacted \<lparr>state_type = Second, stack_depth = 0, state_addr = 1\<rparr>
                     \<lparr>event_type = event_close, event_addr = 2\<rparr>]\<rparr>) \<and>
   Dispatch test_program hsm_config
     \<lparr>state_type = Third, stack_depth = 0, state_addr = 1\<rparr>
     \<lparr>event_type = event_open, event_addr = 2\<rparr>
     (StateMachine_new 3 :: (MyStates, MyEvent) StateMachine)
   = Inr (EndTransition,
       (StateMachine_new 3 :: (MyStates, MyEvent) StateMachine)
        \<lparr>trace := [Dispatched \<lparr>state_type = Third, stack_depth = 0, state_addr = 1\<rparr>
                     \<lparr>event_type = event_open, event_addr = 2\<rparr>]\<rparr>)"
proof -
  have d2: "distinct (reactions test_program Second)"
    and d3: "distinct (reactions test_program Third)"
    by (simp_all add: test_program_def)
  show ?thesis
    using d2
      Dispatch_first_match [of test_program
        "\<lparr>state_type = Second, stack_depth = 0, state_addr = 1\<rparr>" hsm_config
        "\<lparr>event_type = event_close, event_addr = 2\<rparr>"
        "(StateMachine_new 3 :: (MyStates, MyEvent) StateMachine)
           \<lparr>event_queue := [\<lparr>event_type = event_close, event_addr = 2\<rparr>]\<rparr>"]
      Dispatch_first_match [of test_program
        "\<lparr>state_type = Third, stack_depth = 0, state_addr = 1\<rparr>" hsm_config
        "\<lparr>event_type = event_open, event_addr = 2\<rparr>"
        "StateMachine_new 3 :: (MyStates, MyEvent) StateMachine"]
    by (simp add: test_program_def react_def State_defer_def DeferEvent_def
          StateMachine_new_def)
qed

text \<open>
  Outside that case: the specialisation \<open>DispatchImpl<End, End, Sequence>\<close> is chosen by
  the equality of two types, so a list that names its last kind earlier as well is cut
  at the first occurrence of that kind, and the kinds behind it are never compared.
\<close>

lemma Dispatch_repeated_last_kind:
  "reactions P (state_type s) = [a, b, a] \<Longrightarrow> a \<noteq> b \<Longrightarrow> event_type e = b \<Longrightarrow>
   Dispatch P cfg s e m = Inr (EndTransition, m\<lparr>trace := trace m @ [Dispatched s e]\<rparr>)"
  by (simp add: Dispatch_def)

text \<open>
  C7. The handler of a claimed kind equal to the event's kind does not always run. With
  the \<open>reactions\<close> of \<open>Second\<close> written \<open>event_open, event_close, event_open\<close>, the
  first and the last kind are the same type, so \<open>Dispatch\<close> starts in the specialisation
  \<open>DispatchImpl<End, End, Sequence>\<close>, compares \<open>event_open\<close> only and answers
  not-handled to \<open>event_close\<close>, a claimed kind with a handler; the event then ends as an
  unknown event.
\<close>

theorem repeated_last_kind_hides_claimed_kind:
  "event_close \<in> set (reactions repeated_kind_program Second) \<and>
   react_body repeated_kind_program Second event_close = Defer \<and>
   Dispatch repeated_kind_program hsm_config second_state
       \<lparr>event_type = event_close, event_addr = 2\<rparr>
       (test_machine\<lparr>event_queue := [\<lparr>event_type = event_close, event_addr = 2\<rparr>]\<rparr>)
     = Inr (EndTransition,
         test_machine\<lparr>event_queue := [\<lparr>event_type = event_close, event_addr = 2\<rparr>],
                       trace := trace test_machine @
                         [Dispatched second_state \<lparr>event_type = event_close, event_addr = 2\<rparr>]\<rparr>) \<and>
   process_event (Suc 0) repeated_kind_program hsm_config caller_close test_machine
     = Some (Inl (assert_unknown_event
         (trace test_machine @
            [Dispatched first_state \<lparr>event_type = event_close, event_addr = 2\<rparr>,
             Dispatched second_state \<lparr>event_type = event_close, event_addr = 2\<rparr>,
             UnknownEventDiagnostic])))"
  by code_simp

section \<open>Pushing and popping\<close>

lemma PopState_pops:
  "state_stack m \<noteq> [] \<Longrightarrow>
   PopState m = Inr (m\<lparr>state_stack := butlast (state_stack m),
                       trace := trace m @ [OnExit (last (state_stack m))]\<rparr>)"
  by (simp add: PopState_def InvokeOnExit_def Let_def)

lemma rev_drop_snoc:
  "d < length xs \<Longrightarrow> rev (drop d xs) = last xs # rev (drop d (butlast xs))"
proof -
  assume d: "d < length xs"
  then have ne: "xs \<noteq> []" by auto
  have "drop d xs = drop d (butlast xs @ [last xs])" using ne by simp
  also have "\<dots> = drop d (butlast xs) @ [last xs]" using d by simp
  finally show ?thesis by simp
qed

lemma PopStateAtDepth_loop_pops:
  "0 \<le> depth \<Longrightarrow> depth \<le> i + 1 \<Longrightarrow> int (length (state_stack m)) = i + 1 \<Longrightarrow>
   PopStateAtDepth_loop i depth m =
     Inr (m\<lparr>state_stack := take (nat depth) (state_stack m),
            trace := trace m @ map OnExit (rev (drop (nat depth) (state_stack m)))\<rparr>)"
proof (induction i depth m rule: PopStateAtDepth_loop.induct)
  case (1 i depth m)
  show ?case
  proof (cases "i \<ge> depth")
    case False
    with "1.prems" have "nat depth = length (state_stack m)" by linarith
    with False show ?thesis
      by (subst PopStateAtDepth_loop.simps) simp
  next
    case True
    with "1.prems" have ne: "state_stack m \<noteq> []" and d: "nat depth < length (state_stack m)"
      by auto
    let ?m1 = "m\<lparr>state_stack := butlast (state_stack m),
                  trace := trace m @ [OnExit (last (state_stack m))]\<rparr>"
    have p: "PopState m = Inr ?m1" using ne by (rule PopState_pops)
    have "PopStateAtDepth_loop (i - 1) depth ?m1 =
      Inr (?m1\<lparr>state_stack := take (nat depth) (state_stack ?m1),
            trace := trace ?m1 @ map OnExit (rev (drop (nat depth) (state_stack ?m1)))\<rparr>)"
      using "1.prems" True ne by (intro "1.IH" [OF True p]) auto
    then show ?thesis
      using True p d
      by (subst PopStateAtDepth_loop.simps) (simp add: rev_drop_snoc take_butlast)
  qed
qed

lemma PopStateAtDepth_pops:
  "d < length (state_stack m) \<Longrightarrow>
   PopStateAtDepth (int d) m =
     Inr (m\<lparr>state_stack := take d (state_stack m),
            trace := trace m @ map OnExit (rev (drop d (state_stack m)))\<rparr>)"
  using PopStateAtDepth_loop_pops [of "int d" "int (length (state_stack m)) - 1" m]
  by (simp add: PopStateAtDepth_def)

lemma stop_pops_all:
  "stop m = Inr (m\<lparr>state_stack := [], trace := trace m @ map OnExit (rev (state_stack m))\<rparr>)"
proof (cases "state_stack m = []")
  case True
  then show ?thesis by (simp add: stop_def)
next
  case False
  then have "0 < length (state_stack m)" by simp
  from PopStateAtDepth_pops [OF this] False show ?thesis by (simp add: stop_def)
qed

lemma CreateState_Sibling:
  "CreateState (SiblingTransition k) m depth =
     Inr (\<lparr>state_type = k, stack_depth = depth, state_addr = heap_next m\<rparr>,
          m\<lparr>heap_next := Suc (heap_next m)\<rparr>)"
  by (simp add: CreateState_def state_factory_def SiblingTransition_def InitState_def
        AllocateState_def)

lemma PushState_no_initial:
  "InitType P (state_type s) = state_type s \<Longrightarrow>
   PushState n P s m =
     Some (Inr (m\<lparr>state_stack := state_stack m @ [s], trace := trace m @ [OnEnter s]\<rparr>))"
  by (simp add: HasInitializeState_def InvokeOnEnter_def)

lemma PushState_initial:
  "InitType P (state_type s) \<noteq> state_type s \<Longrightarrow>
   PushState (Suc n) P s m =
     PushState n P
       \<lparr>state_type = InitType P (state_type s), stack_depth = 0, state_addr = heap_next m\<rparr>
       (m\<lparr>state_stack := state_stack m @ [s], trace := trace m @ [OnEnter s],
          heap_next := Suc (heap_next m)\<rparr>)"
  by (subst PushState.simps)
     (simp add: HasInitializeState_def InvokeOnEnter_def GetInitializeState_def
        CreateState_Sibling del: PushState.simps)

lemma PushState_initial_0:
  "InitType P (state_type s) \<noteq> state_type s \<Longrightarrow> PushState 0 P s m = None"
  by (simp add: HasInitializeState_def)

lemma PushState_cascade:
  "PushState n P s m = Some r \<Longrightarrow>
   \<exists>chain. r = Inr (m\<lparr>state_stack := state_stack m @ s # chain,
                      trace := trace m @ map OnEnter (s # chain),
                      heap_next := heap_next m + length chain\<rparr>) \<and>
           is_cascade P (map state_type (s # chain)) \<and>
           (\<forall>c\<in>set chain. stack_depth c = 0 \<and> heap_next m \<le> state_addr c)"
proof (induction n arbitrary: s m)
  case 0
  show ?case
  proof (cases "InitType P (state_type s) = state_type s")
    case True
    with 0 show ?thesis
      by (intro exI [of _ "[]"]) (auto simp: PushState_no_initial simp del: PushState.simps)
  next
    case False
    with 0 show ?thesis by (simp add: PushState_initial_0 del: PushState.simps)
  qed
next
  case (Suc n)
  show ?case
  proof (cases "InitType P (state_type s) = state_type s")
    case True
    with Suc.prems show ?thesis
      by (intro exI [of _ "[]"]) (auto simp: PushState_no_initial simp del: PushState.simps)
  next
    case False
    let ?s' = "\<lparr>state_type = InitType P (state_type s), stack_depth = 0, state_addr = heap_next m\<rparr>"
    let ?m' = "m\<lparr>state_stack := state_stack m @ [s], trace := trace m @ [OnEnter s],
          heap_next := Suc (heap_next m)\<rparr>"
    from False Suc.prems have "PushState n P ?s' ?m' = Some r"
      by (simp add: PushState_initial del: PushState.simps)
    from Suc.IH [OF this] obtain chain where
      r: "r = Inr (?m'\<lparr>state_stack := state_stack ?m' @ ?s' # chain,
                      trace := trace ?m' @ map OnEnter (?s' # chain),
                      heap_next := heap_next ?m' + length chain\<rparr>)"
      and c: "is_cascade P (map state_type (?s' # chain))"
      and z: "\<forall>c\<in>set chain. stack_depth c = 0 \<and> heap_next ?m' \<le> state_addr c"
      by blast
    show ?thesis
      using r c z False by (intro exI [of _ "?s' # chain"]) auto
  qed
qed

lemma PushState_returns:
  "is_cascade P (state_type s # ks) \<Longrightarrow> length ks \<le> n \<Longrightarrow> \<exists>r. PushState n P s m = Some r"
proof (induction n arbitrary: s m ks)
  case 0
  then show ?case by (simp add: PushState_no_initial del: PushState.simps)
next
  case (Suc n)
  show ?case
  proof (cases ks)
    case Nil
    with Suc.prems show ?thesis by (simp add: PushState_no_initial del: PushState.simps)
  next
    case (Cons k ks')
    with Suc.prems have ne: "InitType P (state_type s) \<noteq> state_type s"
      and k: "k = InitType P (state_type s)" and c: "is_cascade P (k # ks')" and l: "length ks' \<le> n"
      by auto
    let ?s' = "\<lparr>state_type = InitType P (state_type s), stack_depth = 0, state_addr = heap_next m\<rparr>"
    have "is_cascade P (state_type ?s' # ks')" using c k by simp
    from Suc.IH [OF this l] show ?thesis
      using ne by (simp add: PushState_initial del: PushState.simps)
  qed
qed

section \<open>The dispatch loop\<close>

lemma react_not_End:
  "react P cfg s b e m = Inr (t, m') \<Longrightarrow> transition_type t \<noteq> End"
  by (auto simp: react_def finish_def discard_def transit_def State_defer_def DeferEvent_def
        react_default_def Let_def NoTransition_def SiblingTransition_def
        split: reaction.splits list.splits if_splits sum.splits)

lemma DispatchImpl_End:
  "DispatchImpl P cfg l xs s e m = Inr (t, m') \<Longrightarrow> transition_type t = End \<Longrightarrow>
   DispatchImpl P cfg l xs s e m2 = Inr (EndTransition, m2)"
  by (induction xs) (auto split: if_splits dest: react_not_End)

lemma Dispatch_End:
  assumes "Dispatch P cfg s e m1 = Inr (t, m2)" and "transition_type t = End"
  shows "Dispatch P cfg s e m = Inr (EndTransition, m\<lparr>trace := trace m @ [Dispatched s e]\<rparr>)"
proof (cases "reactions P (state_type s)")
  case Nil
  then show ?thesis by (simp add: Dispatch_def)
next
  case (Cons x xs)
  with assms have "DispatchImpl P cfg (last (x # xs)) (x # xs) s e
      (m1\<lparr>trace := trace m1 @ [Dispatched s e]\<rparr>) = Inr (t, m2)"
    by (simp add: Dispatch_def Let_def del: DispatchImpl.simps)
  from DispatchImpl_End [OF this assms(2)] Cons show ?thesis
    by (simp add: Dispatch_def Let_def del: DispatchImpl.simps)
qed

lemma ProcessQueueEvent_from_skip:
  assumes q: "event_queue m = e # q"
  shows "k \<le> length (state_stack m) \<Longrightarrow>
    (\<forall>j<k. \<exists>m1 m2. Dispatch P cfg (state_stack m ! j) e m1 = Inr (EndTransition, m2)) \<Longrightarrow>
    ProcessQueueEvent_from n P cfg 0 m =
    ProcessQueueEvent_from n P cfg k
      (m\<lparr>trace := trace m @ map (\<lambda>s. Dispatched s e) (take k (state_stack m))\<rparr>)"
proof (induction k)
  case 0
  show ?case by simp
next
  case (Suc k)
  let ?mk = "m\<lparr>trace := trace m @ map (\<lambda>s. Dispatched s e) (take k (state_stack m))\<rparr>"
  let ?s = "state_stack m ! k"
  from Suc.prems have k: "k < length (state_stack m)" by simp
  from Suc.prems obtain m1 m2 where "Dispatch P cfg ?s e m1 = Inr (EndTransition, m2)"
    by blast
  then have d: "Dispatch P cfg ?s e ?mk = Inr (EndTransition, ?mk\<lparr>trace := trace ?mk @ [Dispatched ?s e]\<rparr>)"
    by (rule Dispatch_End) (simp add: EndTransition_def)
  have "ProcessQueueEvent_from n P cfg 0 m = ProcessQueueEvent_from n P cfg k ?mk"
    using Suc by simp
  also have "\<dots> = ProcessQueueEvent_from n P cfg (Suc k) (?mk\<lparr>trace := trace ?mk @ [Dispatched ?s e]\<rparr>)"
    using k q d
    by (subst ProcessQueueEvent_from.simps) (simp add: GetStateAtDepth_def EndTransition_def)
  finally show ?case using k by (simp add: take_Suc_conv_app_nth)
qed


lemma react_trace:
  "react P cfg s b e m = Inr (t, m') \<Longrightarrow> consulted (trace m') = consulted (trace m)"
  by (auto simp: react_def finish_def discard_def transit_def State_defer_def DeferEvent_def
        react_default_def Let_def consulted_def
        split: reaction.splits list.splits if_splits sum.splits)

lemma DispatchImpl_trace:
  "DispatchImpl P cfg l xs s e m = Inr (t, m') \<Longrightarrow> consulted (trace m') = consulted (trace m)"
  by (induction xs) (auto split: if_splits dest: react_trace)

lemma Dispatch_consulted:
  assumes "Dispatch P cfg s e m = Inr (t, m')"
  shows "consulted (trace m') = consulted (trace m) @ [(s, e)]"
proof (cases "reactions P (state_type s)")
  case Nil
  with assms show ?thesis by (auto simp: Dispatch_def consulted_def)
next
  case (Cons x xs)
  with assms have "DispatchImpl P cfg (last (x # xs)) (x # xs) s e
      (m\<lparr>trace := trace m @ [Dispatched s e]\<rparr>) = Inr (t, m')"
    by (simp add: Dispatch_def Let_def del: DispatchImpl.simps)
  from DispatchImpl_trace [OF this] show ?thesis by (simp add: consulted_def)
qed

lemma react_state_stack:
  "react P cfg s b e m = Inr (t, m') \<Longrightarrow> state_stack m' = state_stack m"
  by (auto simp: react_def finish_def discard_def transit_def State_defer_def DeferEvent_def
        react_default_def Let_def split: reaction.splits list.splits if_splits)

lemma DispatchImpl_state_stack:
  "DispatchImpl P cfg l xs s e m = Inr (t, m') \<Longrightarrow> state_stack m' = state_stack m"
  by (induction xs) (auto split: if_splits dest: react_state_stack)

lemma Dispatch_state_stack:
  "Dispatch P cfg s e m = Inr (t, m') \<Longrightarrow> state_stack m' = state_stack m"
  unfolding Dispatch_def Let_def
  by (cases "reactions P (state_type s)")
     (auto simp del: DispatchImpl.simps dest!: DispatchImpl_state_stack)

lemma consulted_append: "consulted (xs @ ys) = consulted xs @ consulted ys"
  by (simp add: consulted_def)

lemma consulted_Dispatched: "consulted (map (\<lambda>s. Dispatched s e) xs) = map (\<lambda>s. (s, e)) xs"
  by (induction xs) (simp_all add: consulted_def)


lemma tt_Sibling: "transition_type (SiblingTransition k) = Sibling"
  by (simp add: SiblingTransition_def)

lemma Dispatch_Sibling_step:
  assumes q: "event_queue m = e # q" and d: "d < length (state_stack m)"
    and s: "Dispatch P cfg (state_stack m ! d) e m = Inr (SiblingTransition target, m1)"
  shows "ProcessQueueEvent_from n P cfg d m =
      (case PushState n P \<lparr>state_type = target, stack_depth = d, state_addr = heap_next m1\<rparr>
              (m1\<lparr>state_stack := take d (state_stack m),
                  trace := trace m1 @ map OnExit (rev (drop d (state_stack m))),
                  heap_next := Suc (heap_next m1)\<rparr>) of
         None \<Rightarrow> None
       | Some (Inl f) \<Rightarrow> Some (Inl f)
       | Some (Inr m4) \<Rightarrow> ProcessDeferredEvent n P cfg m4)"
proof -
  have st: "state_stack m1 = state_stack m" using Dispatch_state_stack [OF s] .
  then have "d < length (state_stack m1)" using d by simp
  from PopStateAtDepth_pops [OF this] st
  have p: "PopStateAtDepth (int d) m1 =
     Inr (m1\<lparr>state_stack := take d (state_stack m),
            trace := trace m1 @ map OnExit (rev (drop d (state_stack m)))\<rparr>)"
    by simp
  show ?thesis
    unfolding ProcessDeferredEvent_def
    using q d s p
    by (subst ProcessQueueEvent_from.simps)
       (simp add: GetStateAtDepth_def CreateState_Sibling tt_Sibling del: PushState.simps)
qed


lemma ProcessQueueEvent_unknown_event:
  assumes "event_queue m = e # q"
    and "\<forall>s\<in>set (state_stack m). \<exists>m1 m2. Dispatch P cfg s e m1 = Inr (EndTransition, m2)"
  shows "ProcessQueueEvent n P cfg m =
     (if ABORT_WHEN_RECEIVE_UNKNOWN_EVENT cfg
      then Some (Inl (assert_unknown_event
             (trace m @ map (\<lambda>s. Dispatched s e) (state_stack m) @ [UnknownEventDiagnostic])))
      else Some (Inr (m\<lparr>trace := trace m @ map (\<lambda>s. Dispatched s e) (state_stack m)
                                     @ [UnknownEventDiagnostic]\<rparr>)))"
proof -
  let ?ml = "m\<lparr>trace := trace m @ map (\<lambda>s. Dispatched s e) (state_stack m)\<rparr>"
  have "\<forall>j<length (state_stack m). \<exists>m1 m2. Dispatch P cfg (state_stack m ! j) e m1 = Inr (EndTransition, m2)"
    using assms(2) by simp
  from ProcessQueueEvent_from_skip [OF assms(1) le_refl this]
  have "ProcessQueueEvent n P cfg m = ProcessQueueEvent_from n P cfg (length (state_stack m)) ?ml"
    by (simp add: ProcessQueueEvent_def)
  also have "\<dots> = (if ABORT_WHEN_RECEIVE_UNKNOWN_EVENT cfg
      then Some (Inl (assert_unknown_event (trace ?ml @ [UnknownEventDiagnostic])))
      else Some (Inr (?ml\<lparr>trace := trace ?ml @ [UnknownEventDiagnostic]\<rparr>)))"
    by (subst ProcessQueueEvent_from.simps) (simp add: Let_def)
  finally show ?thesis by simp
qed

lemma process_event_loop_empty:
  "event_queue m = [] \<Longrightarrow> process_event_loop n P cfg m = Some (Inr m)"
  by (cases n) simp_all

text \<open>
  C8. When every state of the stack, root to leaf, answers not-handled, dispatching the
  front event offers it to each state in turn and prints the unknown-event diagnostic. If
  \<open>ABORT_WHEN_RECEIVE_UNKNOWN_EVENT\<close> is set the assertion then fails, with the diagnostic
  the last entry of the trace at the abort; if it is not set the call returns with the
  stack, the queues and all else but the trace unchanged, and \<open>process_event\<close> has
  removed the event from the queue.
\<close>

theorem unknown_event_consumed:
  assumes "\<forall>s\<in>set (state_stack m). \<exists>m1 m2. Dispatch P cfg s e m1 = Inr (EndTransition, m2)"
  shows "(\<forall>q. event_queue m = e # q \<longrightarrow>
            ProcessQueueEvent n P cfg m =
              (if ABORT_WHEN_RECEIVE_UNKNOWN_EVENT cfg
               then Some (Inl (assert_unknown_event
                      (trace m @ map (\<lambda>s. Dispatched s e) (state_stack m)
                         @ [UnknownEventDiagnostic])))
               else Some (Inr (m\<lparr>trace := trace m @ map (\<lambda>s. Dispatched s e) (state_stack m)
                                              @ [UnknownEventDiagnostic]\<rparr>)))) \<and>
         (\<forall>ev. event_queue m = [] \<and> e = Clone ev (heap_next m) \<longrightarrow>
            process_event (Suc n) P cfg ev m =
              (if ABORT_WHEN_RECEIVE_UNKNOWN_EVENT cfg
               then Some (Inl (assert_unknown_event
                      (trace m @ map (\<lambda>s. Dispatched s e) (state_stack m)
                         @ [UnknownEventDiagnostic])))
               else Some (Inr (m\<lparr>heap_next := Suc (heap_next m),
                                 trace := trace m @ map (\<lambda>s. Dispatched s e) (state_stack m)
                                              @ [UnknownEventDiagnostic]\<rparr>))))"
proof (intro conjI allI impI)
  fix q
  assume "event_queue m = e # q"
  then show "ProcessQueueEvent n P cfg m =
              (if ABORT_WHEN_RECEIVE_UNKNOWN_EVENT cfg
               then Some (Inl (assert_unknown_event
                      (trace m @ map (\<lambda>s. Dispatched s e) (state_stack m)
                         @ [UnknownEventDiagnostic])))
               else Some (Inr (m\<lparr>trace := trace m @ map (\<lambda>s. Dispatched s e) (state_stack m)
                                              @ [UnknownEventDiagnostic]\<rparr>)))"
    using assms by (rule ProcessQueueEvent_unknown_event)
next
  fix ev
  assume a: "event_queue m = [] \<and> e = Clone ev (heap_next m)"
  let ?m = "m\<lparr>event_queue := event_queue m @ [Clone ev (heap_next m)],
              heap_next := Suc (heap_next m)\<rparr>"
  have q: "event_queue ?m = e # []" using a by simp
  have s: "\<forall>s\<in>set (state_stack ?m). \<exists>m1 m2. Dispatch P cfg s e m1 = Inr (EndTransition, m2)"
    using assms by simp
  have p: "ProcessQueueEvent n P cfg ?m =
              (if ABORT_WHEN_RECEIVE_UNKNOWN_EVENT cfg
               then Some (Inl (assert_unknown_event
                      (trace ?m @ map (\<lambda>s. Dispatched s e) (state_stack ?m)
                         @ [UnknownEventDiagnostic])))
               else Some (Inr (?m\<lparr>trace := trace ?m @ map (\<lambda>s. Dispatched s e) (state_stack ?m)
                                              @ [UnknownEventDiagnostic]\<rparr>)))"
    using q s by (rule ProcessQueueEvent_unknown_event)
  show "process_event (Suc n) P cfg ev m =
              (if ABORT_WHEN_RECEIVE_UNKNOWN_EVENT cfg
               then Some (Inl (assert_unknown_event
                      (trace m @ map (\<lambda>s. Dispatched s e) (state_stack m)
                         @ [UnknownEventDiagnostic])))
               else Some (Inr (m\<lparr>heap_next := Suc (heap_next m),
                                 trace := trace m @ map (\<lambda>s. Dispatched s e) (state_stack m)
                                              @ [UnknownEventDiagnostic]\<rparr>)))"
    using a p by (simp add: process_event_def process_event_loop_empty)
qed

theorem unknown_event_consumed_witness:
  "process_event (Suc 0) test_program hsm_config \<lparr>event_type = event_open, event_addr = 9\<rparr>
     ((StateMachine_new 1 :: (MyStates, MyEvent) StateMachine)\<lparr>state_stack := [first_state]\<rparr>)
   = Some (Inl (assert_unknown_event
        [Dispatched first_state \<lparr>event_type = event_open, event_addr = 1\<rparr>,
         UnknownEventDiagnostic])) \<and>
   process_event (Suc 0) test_program (hsm_config\<lparr>ABORT_WHEN_RECEIVE_UNKNOWN_EVENT := False\<rparr>)
     \<lparr>event_type = event_open, event_addr = 9\<rparr>
     ((StateMachine_new 1 :: (MyStates, MyEvent) StateMachine)\<lparr>state_stack := [first_state]\<rparr>)
   = Some (Inr ((StateMachine_new 2 :: (MyStates, MyEvent) StateMachine)
         \<lparr>state_stack := [first_state],
          trace := [Dispatched first_state \<lparr>event_type = event_open, event_addr = 1\<rparr>,
                    UnknownEventDiagnostic]\<rparr>)) \<and>
   ProcessQueueEvent 0 test_program hsm_config
     ((StateMachine_new 1 :: (MyStates, MyEvent) StateMachine)
        \<lparr>state_stack := [first_state],
         event_queue := [\<lparr>event_type = event_open, event_addr = 1\<rparr>]\<rparr>)
   = Some (Inl (assert_unknown_event
        [Dispatched first_state \<lparr>event_type = event_open, event_addr = 1\<rparr>,
         UnknownEventDiagnostic]))"
proof -
  let ?e = "\<lparr>event_type = event_open, event_addr = 1\<rparr> :: MyEvent Event"
  let ?m = "(StateMachine_new 1 :: (MyStates, MyEvent) StateMachine)\<lparr>state_stack := [first_state]\<rparr>"
  have h: "\<forall>s\<in>set (state_stack (?m\<lparr>event_queue := ev\<rparr>)).
      \<exists>m1 m2. Dispatch test_program cfg s ?e m1 = Inr (EndTransition, m2)" for cfg ev
    by (simp add: Dispatch_def test_program_def first_state_def)
  show ?thesis
    using unknown_event_consumed [OF h [of "[]" hsm_config], of 0]
      unknown_event_consumed [OF h [of "[]" "hsm_config\<lparr>ABORT_WHEN_RECEIVE_UNKNOWN_EVENT := False\<rparr>"], of 0]
      unknown_event_consumed [OF h [of "[?e]" hsm_config], of 0]
    by (simp add: StateMachine_new_def hsm_config_def Clone_def)
qed

text \<open>
  The depth loop by itself. When the states above depth \<open>k\<close> answer not-handled and the
  state at depth \<open>k\<close> answers otherwise, the loop has consulted exactly the states of
  depths \<open>0\<close> to \<open>k\<close>, in that order, when that answer arrives; on no-change the call
  returns at once, and on a sibling transition it executes that transition (pop to depth
  \<open>k\<close>, create, push) and goes on to replay the deferred events.
\<close>

lemma ProcessQueueEvent_root_to_leaf:
  assumes "event_queue m = e # q" and "k < length (state_stack m)"
    and "\<forall>j<k. \<exists>m1 m2. Dispatch P cfg (state_stack m ! j) e m1 = Inr (EndTransition, m2)"
    and "Dispatch P cfg (state_stack m ! k) e
           (m\<lparr>trace := trace m @ map (\<lambda>s. Dispatched s e) (take k (state_stack m))\<rparr>)
         = Inr (t, m1)"
    and "transition_type t \<noteq> End"
  shows "consulted (trace m1) =
           consulted (trace m) @ map (\<lambda>s. (s, e)) (take (Suc k) (state_stack m)) \<and>
         state_stack m1 = state_stack m \<and>
         ProcessQueueEvent n P cfg m =
           (if transition_type t = No then Some (Inr m1)
            else
              (case PopStateAtDepth (int k) m1 of
                 Inl f \<Rightarrow> Some (Inl f)
               | Inr m2 \<Rightarrow>
              (case CreateState t m2 k of
                 Inl f \<Rightarrow> Some (Inl f)
               | Inr (target_state, m3) \<Rightarrow>
              (case PushState n P target_state m3 of
                 None \<Rightarrow> None
               | Some (Inl f) \<Rightarrow> Some (Inl f)
               | Some (Inr m4) \<Rightarrow> ProcessDeferredEvent n P cfg m4))))"
proof -
  let ?mk = "m\<lparr>trace := trace m @ map (\<lambda>s. Dispatched s e) (take k (state_stack m))\<rparr>"
  have c: "consulted (trace m1) =
           consulted (trace m) @ map (\<lambda>s. (s, e)) (take (Suc k) (state_stack m))"
    using Dispatch_consulted [OF assms(4)] assms(2)
    by (simp add: consulted_append consulted_Dispatched take_Suc_conv_app_nth)
  have s: "state_stack m1 = state_stack m"
    using Dispatch_state_stack [OF assms(4)] by simp
  have "ProcessQueueEvent n P cfg m = ProcessQueueEvent_from n P cfg k ?mk"
    unfolding ProcessQueueEvent_def
    using assms(2,3) by (intro ProcessQueueEvent_from_skip [OF assms(1)]) auto
  also have "\<dots> =
           (if transition_type t = No then Some (Inr m1)
            else
              (case PopStateAtDepth (int k) m1 of
                 Inl f \<Rightarrow> Some (Inl f)
               | Inr m2 \<Rightarrow>
              (case CreateState t m2 k of
                 Inl f \<Rightarrow> Some (Inl f)
               | Inr (target_state, m3) \<Rightarrow>
              (case PushState n P target_state m3 of
                 None \<Rightarrow> None
               | Some (Inl f) \<Rightarrow> Some (Inl f)
               | Some (Inr m4) \<Rightarrow>
                   ProcessDeferredEvent_from n P cfg (length (deferred_queue m4)) m4))))"
    using assms(1,2,4,5)
    by (subst ProcessQueueEvent_from.simps)
       (simp add: GetStateAtDepth_def del: PushState.simps
          split: Transition_Type.splits)
  finally show ?thesis using c s unfolding ProcessDeferredEvent_def by simp
qed

lemma ProcessQueueEvent_root_to_leaf_test_cc:
  "ProcessQueueEvent 0 test_program hsm_config
     (test_machine\<lparr>event_queue := [\<lparr>event_type = event_close, event_addr = 2\<rparr>]\<rparr>)
   = Some (Inr (test_machine
       \<lparr>event_queue := [\<lparr>event_type = event_close, event_addr = 2\<rparr>],
        deferred_queue := [\<lparr>event_type = event_close, event_addr = 2\<rparr>],
        trace := trace test_machine @
          [Dispatched first_state \<lparr>event_type = event_close, event_addr = 2\<rparr>,
           Dispatched second_state \<lparr>event_type = event_close, event_addr = 2\<rparr>,
           Reacted second_state \<lparr>event_type = event_close, event_addr = 2\<rparr>]\<rparr>))"
proof -
  let ?e = "\<lparr>event_type = event_close, event_addr = 2\<rparr> :: MyEvent Event"
  let ?m = "test_machine\<lparr>event_queue := [?e]\<rparr>"
  let ?m1 = "test_machine
       \<lparr>event_queue := [?e], deferred_queue := [?e],
        trace := trace test_machine @
          [Dispatched first_state ?e, Dispatched second_state ?e, Reacted second_state ?e]\<rparr>"
  have h1: "event_queue ?m = ?e # []" by simp
  have h2: "Suc 0 < length (state_stack ?m)" by (simp add: test_machine_def)
  have h3: "\<forall>j<Suc 0. \<exists>m1 m2.
      Dispatch test_program hsm_config (state_stack ?m ! j) ?e m1 = Inr (EndTransition, m2)"
    by (simp add: Dispatch_def test_program_def test_machine_def first_state_def)
  have h4: "Dispatch test_program hsm_config (state_stack ?m ! Suc 0) ?e
           (?m\<lparr>trace := trace ?m @ map (\<lambda>s. Dispatched s ?e) (take (Suc 0) (state_stack ?m))\<rparr>)
         = Inr (NoTransition, ?m1)"
    by (simp add: Dispatch_def test_program_def test_machine_def second_state_def react_def
          State_defer_def DeferEvent_def)
  have h5: "transition_type (NoTransition :: MyStates Transition) \<noteq> End"
    by (simp add: NoTransition_def)
  from ProcessQueueEvent_root_to_leaf [OF h1 h2 h3 h4 h5, of 0]
  show ?thesis by (simp add: NoTransition_def)
qed

lemma PushState_pushes_cascade:
  "is_cascade P (state_type s # ks) \<Longrightarrow> length ks \<le> n \<Longrightarrow>
   \<exists>chain. map state_type chain = ks \<and>
     PushState n P s m =
       Some (Inr (m\<lparr>state_stack := state_stack m @ s # chain,
                    trace := trace m @ map OnEnter (s # chain),
                    heap_next := heap_next m + length chain\<rparr>))"
proof -
  assume c: "is_cascade P (state_type s # ks)" and l: "length ks \<le> n"
  from PushState_returns [OF c l] obtain r where r: "PushState n P s m = Some r" by blast
  from PushState_cascade [OF r] obtain chain where
    e: "r = Inr (m\<lparr>state_stack := state_stack m @ s # chain,
                      trace := trace m @ map OnEnter (s # chain),
                      heap_next := heap_next m + length chain\<rparr>)"
    and c': "is_cascade P (map state_type (s # chain))"
    by blast
  have u: "is_cascade P (k # xs) \<Longrightarrow> is_cascade P (k # ys) \<Longrightarrow> xs = ys" for k xs ys
  proof (induction xs arbitrary: k ys)
    case Nil
    then show ?case by (cases ys) auto
  next
    case (Cons x xs)
    then show ?case by (cases ys) auto
  qed
  from u [OF c] c' have "map state_type chain = ks" by simp
  with r e show ?thesis by blast
qed

text \<open>
  C5. Popping from depth \<open>d\<close>, and \<open>stop\<close>, call \<open>on_exit\<close> once on every popped
  instance, the leaf first and in decreasing index; the states below \<open>d\<close> stay. A sibling
  transition found at depth \<open>d\<close> pops exactly the states of index \<open>d\<close> and more and then
  pushes a newly created instance of the target with depth \<open>d\<close>, followed by its initial
  substates: whenever the declarations of initial substates from the target on end (and
  the fuel covers them), the push returns with the target and one new state of each of
  those kinds, in that order, on top of the states below \<open>d\<close>.
\<close>

theorem Sibling_pops_leaf_first_and_pushes_target:
  assumes "d < length (state_stack m)"
  shows "PopStateAtDepth (int d) m =
           Inr (m\<lparr>state_stack := take d (state_stack m),
                  trace := trace m @ map OnExit (rev (drop d (state_stack m)))\<rparr>) \<and>
         stop m =
           Inr (m\<lparr>state_stack := [],
                  trace := trace m @ map OnExit (rev (state_stack m))\<rparr>) \<and>
         (\<forall>e q target m1.
            event_queue m = e # q \<and>
            Dispatch P cfg (state_stack m ! d) e m = Inr (SiblingTransition target, m1) \<longrightarrow>
            (let target_state = \<lparr>state_type = target, stack_depth = d, state_addr = heap_next m1\<rparr>;
                 popped = m1\<lparr>state_stack := take d (state_stack m),
                            trace := trace m1 @ map OnExit (rev (drop d (state_stack m))),
                            heap_next := Suc (heap_next m1)\<rparr>
             in ProcessQueueEvent_from n P cfg d m =
                  (case PushState n P target_state popped of
                     None \<Rightarrow> None
                   | Some (Inl f) \<Rightarrow> Some (Inl f)
                   | Some (Inr m4) \<Rightarrow> ProcessDeferredEvent n P cfg m4) \<and>
                (\<forall>r. PushState n P target_state popped = Some r \<longrightarrow>
                   (\<exists>chain.
                      r = Inr (popped\<lparr>state_stack := take d (state_stack m) @ target_state # chain,
                                     trace := trace popped @ map OnEnter (target_state # chain),
                                     heap_next := heap_next popped + length chain\<rparr>) \<and>
                      is_cascade P (target # map state_type chain))) \<and>
                (\<forall>ks. is_cascade P (target # ks) \<and> length ks \<le> n \<longrightarrow>
                   (\<exists>chain. map state_type chain = ks \<and>
                      PushState n P target_state popped =
                        Some (Inr (popped\<lparr>state_stack :=
                                            take d (state_stack m) @ target_state # chain,
                                          trace := trace popped @ map OnEnter (target_state # chain),
                                          heap_next := heap_next popped + length chain\<rparr>))))))"
proof (intro conjI allI impI)
  show "PopStateAtDepth (int d) m =
           Inr (m\<lparr>state_stack := take d (state_stack m),
                  trace := trace m @ map OnExit (rev (drop d (state_stack m)))\<rparr>)"
    using assms by (rule PopStateAtDepth_pops)
next
  show "stop m = Inr (m\<lparr>state_stack := [], trace := trace m @ map OnExit (rev (state_stack m))\<rparr>)"
    by (rule stop_pops_all)
next
  fix e q target m1
  assume a: "event_queue m = e # q \<and>
            Dispatch P cfg (state_stack m ! d) e m = Inr (SiblingTransition target, m1)"
  let ?ts = "\<lparr>state_type = target, stack_depth = d, state_addr = heap_next m1\<rparr>"
  let ?pm = "m1\<lparr>state_stack := take d (state_stack m),
                            trace := trace m1 @ map OnExit (rev (drop d (state_stack m))),
                            heap_next := Suc (heap_next m1)\<rparr>"
  have 1: "ProcessQueueEvent_from n P cfg d m =
                  (case PushState n P ?ts ?pm of
                     None \<Rightarrow> None
                   | Some (Inl f) \<Rightarrow> Some (Inl f)
                   | Some (Inr m4) \<Rightarrow> ProcessDeferredEvent n P cfg m4)"
    using a assms by (intro Dispatch_Sibling_step) auto
  have 2: "\<exists>chain.
                      r = Inr (?pm\<lparr>state_stack := take d (state_stack m) @ ?ts # chain,
                                     trace := trace ?pm @ map OnEnter (?ts # chain),
                                     heap_next := heap_next ?pm + length chain\<rparr>) \<and>
                      is_cascade P (target # map state_type chain)"
    if "PushState n P ?ts ?pm = Some r" for r
    using PushState_cascade [OF that] by auto
  have 3: "\<exists>chain. map state_type chain = ks \<and>
                      PushState n P ?ts ?pm =
                        Some (Inr (?pm\<lparr>state_stack :=
                                            take d (state_stack m) @ ?ts # chain,
                                          trace := trace ?pm @ map OnEnter (?ts # chain),
                                          heap_next := heap_next ?pm + length chain\<rparr>))"
    if "is_cascade P (target # ks) \<and> length ks \<le> n" for ks
    using PushState_pushes_cascade [of P ?ts ks n ?pm] that by simp
  show "let target_state = ?ts; popped = ?pm
             in ProcessQueueEvent_from n P cfg d m =
                  (case PushState n P target_state popped of
                     None \<Rightarrow> None
                   | Some (Inl f) \<Rightarrow> Some (Inl f)
                   | Some (Inr m4) \<Rightarrow> ProcessDeferredEvent n P cfg m4) \<and>
                (\<forall>r. PushState n P target_state popped = Some r \<longrightarrow>
                   (\<exists>chain.
                      r = Inr (popped\<lparr>state_stack := take d (state_stack m) @ target_state # chain,
                                     trace := trace popped @ map OnEnter (target_state # chain),
                                     heap_next := heap_next popped + length chain\<rparr>) \<and>
                      is_cascade P (target # map state_type chain))) \<and>
                (\<forall>ks. is_cascade P (target # ks) \<and> length ks \<le> n \<longrightarrow>
                   (\<exists>chain. map state_type chain = ks \<and>
                      PushState n P target_state popped =
                        Some (Inr (popped\<lparr>state_stack :=
                                            take d (state_stack m) @ target_state # chain,
                                          trace := trace popped @ map OnEnter (target_state # chain),
                                          heap_next := heap_next popped + length chain\<rparr>))))"
    unfolding Let_def using 1 2 3 by blast
qed

theorem Sibling_pops_leaf_first_and_pushes_target_witness:
  "PopStateAtDepth 1 test_machine =
     Inr (test_machine\<lparr>state_stack := [first_state],
            trace := trace test_machine @ [OnExit second_state]\<rparr>) \<and>
   stop test_machine =
     Inr (test_machine\<lparr>state_stack := [],
            trace := trace test_machine @ [OnExit second_state, OnExit first_state]\<rparr>) \<and>
   ProcessQueueEvent_from (Suc 0) reentry_program hsm_config (Suc 0)
     (test_machine\<lparr>state_stack := [first_state, third_state],
                   event_queue := [\<lparr>event_type = event_close, event_addr = 2\<rparr>],
                   heap_next := 5\<rparr>) =
     Some (Inr (test_machine
       \<lparr>event_queue := [\<lparr>event_type = event_close, event_addr = 2\<rparr>],
        state_stack := [first_state,
                        \<lparr>state_type = First, stack_depth = 1, state_addr = 5\<rparr>,
                        \<lparr>state_type = Second, stack_depth = 0, state_addr = 6\<rparr>],
        trace := trace test_machine @
          [Dispatched third_state \<lparr>event_type = event_close, event_addr = 2\<rparr>,
           Reacted third_state \<lparr>event_type = event_close, event_addr = 2\<rparr>,
           OnExit third_state,
           OnEnter \<lparr>state_type = First, stack_depth = 1, state_addr = 5\<rparr>,
           OnEnter \<lparr>state_type = Second, stack_depth = 0, state_addr = 6\<rparr>],
        heap_next := 7\<rparr>))"
proof -
  let ?e = "\<lparr>event_type = event_close, event_addr = 2\<rparr> :: MyEvent Event"
  let ?m = "test_machine\<lparr>state_stack := [first_state, third_state], event_queue := [?e],
                   heap_next := 5\<rparr>"
  let ?m1 = "?m\<lparr>trace := trace test_machine @ [Dispatched third_state ?e, Reacted third_state ?e]\<rparr>"
  let ?ts = "\<lparr>state_type = First, stack_depth = Suc 0, state_addr = heap_next ?m1\<rparr>"
  let ?pm = "?m1\<lparr>state_stack := take (Suc 0) (state_stack ?m),
                    trace := trace ?m1 @ map OnExit (rev (drop (Suc 0) (state_stack ?m))),
                    heap_next := Suc (heap_next ?m1)\<rparr>"
  have d: "Suc 0 < length (state_stack test_machine)" "Suc 0 < length (state_stack ?m)"
    by (simp_all add: test_machine_def)
  have h: "event_queue ?m = ?e # [] \<and>
     Dispatch reentry_program hsm_config (state_stack ?m ! Suc 0) ?e ?m = Inr (SiblingTransition First, ?m1)"
    by (simp add: Dispatch_def reentry_program_def test_machine_def third_state_def react_def
          transit_def)
  have c: "is_cascade reentry_program (First # [Second]) \<and> length [Second] \<le> Suc 0"
    by (simp add: reentry_program_def)
  from Sibling_pops_leaf_first_and_pushes_target [OF d(1), of reentry_program hsm_config 0]
  have 1: "PopStateAtDepth 1 test_machine =
     Inr (test_machine\<lparr>state_stack := [first_state],
            trace := trace test_machine @ [OnExit second_state]\<rparr>)"
    and 2: "stop test_machine =
     Inr (test_machine\<lparr>state_stack := [],
            trace := trace test_machine @ [OnExit second_state, OnExit first_state]\<rparr>)"
    by (simp_all add: test_machine_def)
  from Sibling_pops_leaf_first_and_pushes_target [OF d(2), of reentry_program hsm_config "Suc 0"] h
  have q: "ProcessQueueEvent_from (Suc 0) reentry_program hsm_config (Suc 0) ?m =
                  (case PushState (Suc 0) reentry_program ?ts ?pm of
                     None \<Rightarrow> None
                   | Some (Inl f) \<Rightarrow> Some (Inl f)
                   | Some (Inr m4) \<Rightarrow> ProcessDeferredEvent (Suc 0) reentry_program hsm_config m4)"
    and p: "\<forall>ks. is_cascade reentry_program (First # ks) \<and> length ks \<le> Suc 0 \<longrightarrow>
                   (\<exists>chain. map state_type chain = ks \<and>
                      PushState (Suc 0) reentry_program ?ts ?pm =
                        Some (Inr (?pm\<lparr>state_stack :=
                                            take (Suc 0) (state_stack ?m) @ ?ts # chain,
                                          trace := trace ?pm @ map OnEnter (?ts # chain),
                                          heap_next := heap_next ?pm + length chain\<rparr>)))"
    unfolding Let_def by blast+
  from p [rule_format, OF c] obtain chain where ku: "map state_type chain = [Second] \<and>
      PushState (Suc 0) reentry_program ?ts ?pm =
                        Some (Inr (?pm\<lparr>state_stack :=
                                            take (Suc 0) (state_stack ?m) @ ?ts # chain,
                                          trace := trace ?pm @ map OnEnter (?ts # chain),
                                          heap_next := heap_next ?pm + length chain\<rparr>))" ..
  note u = ku [THEN conjunct2]
  have v: "PushState (Suc 0) reentry_program ?ts ?pm =
      Some (Inr (?pm\<lparr>state_stack := take (Suc 0) (state_stack ?m) @
                         [?ts, \<lparr>state_type = Second, stack_depth = 0, state_addr = 6\<rparr>],
                      trace := trace ?pm @
                         [OnEnter ?ts, OnEnter \<lparr>state_type = Second, stack_depth = 0, state_addr = 6\<rparr>],
                      heap_next := 7\<rparr>))"
    by (simp add: HasInitializeState_def GetInitializeState_def InvokeOnEnter_def
          CreateState_Sibling reentry_program_def)
  from u [unfolded v] have "state_stack (?pm\<lparr>state_stack := take (Suc 0) (state_stack ?m) @
                         [?ts, \<lparr>state_type = Second, stack_depth = 0, state_addr = 6\<rparr>],
                      trace := trace ?pm @
                         [OnEnter ?ts, OnEnter \<lparr>state_type = Second, stack_depth = 0, state_addr = 6\<rparr>],
                      heap_next := 7\<rparr>) =
      state_stack (?pm\<lparr>state_stack := take (Suc 0) (state_stack ?m) @ ?ts # chain,
                                          trace := trace ?pm @ map OnEnter (?ts # chain),
                                          heap_next := heap_next ?pm + length chain\<rparr>)"
    by simp
  then have "chain = [\<lparr>state_type = Second, stack_depth = 0, state_addr = 6\<rparr>]"
    by simp
  with q u have 3: "ProcessQueueEvent_from (Suc 0) reentry_program hsm_config (Suc 0) ?m =
     Some (Inr (test_machine
       \<lparr>event_queue := [?e],
        state_stack := [first_state,
                        \<lparr>state_type = First, stack_depth = 1, state_addr = 5\<rparr>,
                        \<lparr>state_type = Second, stack_depth = 0, state_addr = 6\<rparr>],
        trace := trace test_machine @
          [Dispatched third_state ?e, Reacted third_state ?e, OnExit third_state,
           OnEnter \<lparr>state_type = First, stack_depth = 1, state_addr = 5\<rparr>,
           OnEnter \<lparr>state_type = Second, stack_depth = 0, state_addr = 6\<rparr>],
        heap_next := 7\<rparr>))"
    by (simp add: ProcessDeferredEvent_def ProcessDeferredEvent_from.simps test_machine_def
          del: PushState.simps)
  from 1 2 3 show ?thesis by simp
qed




section \<open>Initialising once\<close>

lemma react_initial_transition:
  "react P cfg s b e m = Inr (t, m') \<Longrightarrow> initial_transition m' = initial_transition m"
  by (auto simp: react_def finish_def discard_def transit_def State_defer_def DeferEvent_def
        react_default_def Let_def split: reaction.splits list.splits if_splits)

lemma DispatchImpl_initial_transition:
  "DispatchImpl P cfg l xs s e m = Inr (t, m') \<Longrightarrow> initial_transition m' = initial_transition m"
  by (induction xs) (auto split: if_splits dest: react_initial_transition)

lemma Dispatch_initial_transition:
  "Dispatch P cfg s e m = Inr (t, m') \<Longrightarrow> initial_transition m' = initial_transition m"
  unfolding Dispatch_def Let_def
  by (cases "reactions P (state_type s)")
     (auto simp del: DispatchImpl.simps dest!: DispatchImpl_initial_transition)

lemma PopStateAtDepth_initial_transition:
  "PopStateAtDepth (int d) m = Inr m' \<Longrightarrow> initial_transition m' = initial_transition m"
proof (cases "d < length (state_stack m)")
  case True
  assume "PopStateAtDepth (int d) m = Inr m'"
  with PopStateAtDepth_pops [OF True] show ?thesis by auto
next
  case False
  assume "PopStateAtDepth (int d) m = Inr m'"
  with False show ?thesis by (simp add: PopStateAtDepth_def)
qed

lemma CreateState_initial_transition:
  "CreateState t m d = Inr (s, m') \<Longrightarrow> initial_transition m' = initial_transition m"
  by (auto simp: CreateState_def split: sum.splits)

lemma PushState_initial_transition:
  "PushState n P s m = Some (Inr m') \<Longrightarrow> initial_transition m' = initial_transition m"
  by (drule PushState_cascade) auto

lemma ProcessQueueEvent_from_initial_transition:
  "ProcessQueueEvent_from n P cfg d m = Some (Inr m') \<Longrightarrow>
     initial_transition m' = initial_transition m"
  and ProcessDeferredEvent_from_initial_transition:
  "ProcessDeferredEvent_from n P cfg i m = Some (Inr m') \<Longrightarrow>
     initial_transition m' = initial_transition m"
proof (induction n P cfg d m and n P cfg i m arbitrary: m' and m'
    rule: ProcessQueueEvent_from_ProcessDeferredEvent_from.induct)
  case (1 n P cfg depth m)
  show ?case
  proof (cases "depth < length (state_stack m)")
    case False
    with "1.prems" show ?thesis
      by (subst (asm) ProcessQueueEvent_from.simps) (auto simp: Let_def split: if_splits)
  next
    case True
    from "1.prems" True obtain front q t m1 where
      q: "event_queue m = front # q"
      and g: "GetStateAtDepth m depth = Inr (state_stack m ! depth)"
      and d: "Dispatch P cfg (state_stack m ! depth) front m = Inr (t, m1)"
      by (subst (asm) ProcessQueueEvent_from.simps)
         (auto simp: GetStateAtDepth_def split: list.splits sum.splits)
    have i1: "initial_transition m1 = initial_transition m"
      using d by (rule Dispatch_initial_transition)
    show ?thesis
    proof (cases "transition_type t")
      case End
      with "1.prems" True q g d have "ProcessQueueEvent_from n P cfg (depth + 1) m1 = Some (Inr m')"
        by (subst (asm) ProcessQueueEvent_from.simps) simp
      from "1.IH"(2) [OF True g q d refl End this] i1 show ?thesis by simp
    next
      case No
      with "1.prems" True q g d have "m' = m1"
        by (subst (asm) ProcessQueueEvent_from.simps) simp
      with i1 show ?thesis by simp
    next
      case Sibling
      with "1.prems" True q g d obtain m2 ts m3 m4 where
        p: "PopStateAtDepth (int depth) m1 = Inr m2"
        and c: "CreateState t m2 depth = Inr (ts, m3)"
        and u: "PushState n P ts m3 = Some (Inr m4)"
        and r: "ProcessDeferredEvent_from n P cfg (length (deferred_queue m4)) m4 = Some (Inr m')"
        by (subst (asm) ProcessQueueEvent_from.simps)
           (auto simp del: PushState.simps split: sum.splits option.splits)
      have "initial_transition m' = initial_transition m4"
        using "1.IH"(1) [OF True g q d refl Sibling p c refl u refl r] .
      also have "\<dots> = initial_transition m3" using u by (rule PushState_initial_transition)
      also have "\<dots> = initial_transition m2" using c by (rule CreateState_initial_transition)
      also have "\<dots> = initial_transition m1" using p by (rule PopStateAtDepth_initial_transition)
      finally show ?thesis using i1 by simp
    qed
  qed
next
  case (2 n P cfg i m)
  show ?case
  proof (cases "i > 0")
    case False
    with "2.prems" show ?thesis
      by (subst (asm) ProcessDeferredEvent_from.simps) simp
  next
    case True
    from "2.prems" True obtain d ds k m1 x dq y eq where
      dq: "deferred_queue m = d # ds" and n: "n = Suc k"
      and p: "ProcessQueueEvent_from k P cfg 0 (m\<lparr>event_queue := d # event_queue m\<rparr>) = Some (Inr m1)"
      and d1: "deferred_queue m1 = x # dq" and e1: "event_queue m1 = y # eq"
      and r: "ProcessDeferredEvent_from n P cfg (i - 1) (m1\<lparr>deferred_queue := dq, event_queue := eq\<rparr>) = Some (Inr m')"
      by (subst (asm) ProcessDeferredEvent_from.simps)
         (auto split: list.splits nat.splits option.splits sum.splits)
    have a: "initial_transition m1 = initial_transition (m\<lparr>event_queue := d # event_queue m\<rparr>)"
      using "2.IH"(1) [OF True dq n p] .
    have "initial_transition m' = initial_transition (m1\<lparr>deferred_queue := dq, event_queue := eq\<rparr>)"
      using "2.IH"(2) [OF True dq n p refl d1 e1 r] .
    with a show ?thesis by simp
  qed
qed

lemma process_event_loop_initial_transition:
  "process_event_loop n P cfg m = Some (Inr m') \<Longrightarrow>
     initial_transition m' = initial_transition m"
proof (induction n arbitrary: m)
  case 0
  then show ?case by (simp split: if_splits)
next
  case (Suc n)
  show ?case
  proof (cases "event_queue m = []")
    case True
    with Suc.prems show ?thesis by simp
  next
    case False
    with Suc.prems obtain m1 x q where
      p: "ProcessQueueEvent n P cfg m = Some (Inr m1)" and q: "event_queue m1 = x # q"
      and r: "process_event_loop n P cfg (m1\<lparr>event_queue := q\<rparr>) = Some (Inr m')"
      by (auto split: option.splits sum.splits list.splits)
    from p have "initial_transition m1 = initial_transition m"
      unfolding ProcessQueueEvent_def by (rule ProcessQueueEvent_from_initial_transition)
    with Suc.IH [OF r] show ?thesis by simp
  qed
qed

lemma process_event_initial_transition:
  "process_event n P cfg ev m = Some (Inr m') \<Longrightarrow> initial_transition m' = initial_transition m"
  unfolding process_event_def by (drule process_event_loop_initial_transition) simp

lemma stop_initial_transition:
  "stop m = Inr m' \<Longrightarrow> initial_transition m' = initial_transition m"
  using stop_pops_all [of m] by auto

lemma initialize_again:
  "\<not> IsNo (initial_transition m) \<Longrightarrow> initialize n P k ow m = Some (Inl assert_not_initialized)"
  by (simp add: initialize_def)

lemma initialize_result:
  assumes "initialize n P k ow m = Some (Inr r)"
  shows "owner r = ow \<and> initial_transition r = SiblingTransition k \<and>
    (\<exists>chain. state_stack r = \<lparr>state_type = k, stack_depth = 0, state_addr = heap_next m\<rparr> # chain \<and>
        is_cascade P (k # map state_type chain) \<and>
        trace r = trace m @
          map OnEnter (\<lparr>state_type = k, stack_depth = 0, state_addr = heap_next m\<rparr> # chain))"
proof -
  let ?m1 = "m\<lparr>initial_transition := SiblingTransition k, owner := ow\<rparr>"
  let ?root = "\<lparr>state_type = k, stack_depth = 0, state_addr = heap_next m\<rparr>"
  from assms have e: "state_stack m = []"
    and c: "CreateAndPushInitialState n P (SiblingTransition k) ?m1 = Some (Inr r)"
    by (auto simp: initialize_def Let_def split: if_splits)
  from c obtain n' where n: "n = Suc n'" by (cases n) auto
  with c have "PushState n' P ?root (?m1\<lparr>heap_next := Suc (heap_next m)\<rparr>) = Some (Inr r)"
    by (simp add: CreateState_Sibling del: PushState.simps)
  from PushState_cascade [OF this] e show ?thesis by auto
qed


text \<open>
  C9. \<open>initialize\<close> fails its first assertion on a machine that has been initialised
  before, and its second on a fresh machine whose stack is not empty. A call that
  succeeds records the owner and pushes the root, created with depth 0, and the cascade of
  its initial substates; it does succeed on a fresh empty machine when that cascade is
  finite. After it, every further \<open>initialize\<close> fails, directly, after any
  \<open>process_event\<close> and after \<open>stop\<close>.
\<close>

theorem initialize_once:
  "(\<not> IsNo (initial_transition m) \<longrightarrow>
      initialize n P k ow m = Some (Inl assert_not_initialized)) \<and>
   (IsNo (initial_transition m) \<and> state_stack m \<noteq> [] \<longrightarrow>
      initialize n P k ow m = Some (Inl assert_stack_empty)) \<and>
   (\<forall>r. initialize n P k ow m = Some (Inr r) \<longrightarrow>
      owner r = ow \<and>
      (\<exists>chain. state_stack r =
           \<lparr>state_type = k, stack_depth = 0, state_addr = heap_next m\<rparr> # chain \<and>
         is_cascade P (k # map state_type chain) \<and>
         trace r = trace m @
           map OnEnter (\<lparr>state_type = k, stack_depth = 0, state_addr = heap_next m\<rparr> # chain)) \<and>
      (\<forall>n' k' ow'. initialize n' P k' ow' r = Some (Inl assert_not_initialized)) \<and>
      (\<forall>n' cfg ev r'. process_event n' P cfg ev r = Some (Inr r') \<longrightarrow>
         (\<forall>n'' k' ow'. initialize n'' P k' ow' r' = Some (Inl assert_not_initialized))) \<and>
      (\<forall>r'. stop r = Inr r' \<longrightarrow>
         (\<forall>n' k' ow'. initialize n' P k' ow' r' = Some (Inl assert_not_initialized)))) \<and>
   (\<forall>ks. IsNo (initial_transition m) \<and> state_stack m = [] \<and> is_cascade P (k # ks) \<and>
      length ks < n \<longrightarrow> (\<exists>r. initialize n P k ow m = Some (Inr r)))"
proof (intro conjI allI impI)
  assume "\<not> IsNo (initial_transition m)"
  then show "initialize n P k ow m = Some (Inl assert_not_initialized)"
    by (rule initialize_again)
next
  assume "IsNo (initial_transition m) \<and> state_stack m \<noteq> []"
  then show "initialize n P k ow m = Some (Inl assert_stack_empty)"
    by (simp add: initialize_def)
next
  fix r
  assume a: "initialize n P k ow m = Some (Inr r)"
  from initialize_result [OF a] show "owner r = ow" by simp
  from initialize_result [OF a]
  show "\<exists>chain. state_stack r =
           \<lparr>state_type = k, stack_depth = 0, state_addr = heap_next m\<rparr> # chain \<and>
         is_cascade P (k # map state_type chain) \<and>
         trace r = trace m @
           map OnEnter (\<lparr>state_type = k, stack_depth = 0, state_addr = heap_next m\<rparr> # chain)"
    by simp
  from initialize_result [OF a] have i: "\<not> IsNo (initial_transition r)"
    by (simp add: IsNo_def SiblingTransition_def)
  {
    fix n' k' ow'
    show "initialize n' P k' ow' r = Some (Inl assert_not_initialized)"
      using i by (rule initialize_again)
  }
  {
    fix n' cfg ev r' n'' k' ow'
    assume "process_event n' P cfg ev r = Some (Inr r')"
    from process_event_initial_transition [OF this] i
    show "initialize n'' P k' ow' r' = Some (Inl assert_not_initialized)"
      by (intro initialize_again) simp
  }
  {
    fix r' n' k' ow'
    assume "stop r = Inr r'"
    from stop_initial_transition [OF this] i
    show "initialize n' P k' ow' r' = Some (Inl assert_not_initialized)"
      by (intro initialize_again) simp
  }
next
  fix ks
  assume a: "IsNo (initial_transition m) \<and> state_stack m = [] \<and> is_cascade P (k # ks) \<and>
      length ks < n"
  then obtain n' where n: "n = Suc n'" and l: "length ks \<le> n'" by (cases n) auto
  let ?root = "\<lparr>state_type = k, stack_depth = 0, state_addr = heap_next m\<rparr>"
  let ?m1 = "m\<lparr>initial_transition := SiblingTransition k, owner := ow,
      heap_next := Suc (heap_next m)\<rparr>"
  from a have "is_cascade P (state_type ?root # ks)" by simp
  from PushState_returns [OF this l] obtain r where r: "PushState n' P ?root ?m1 = Some r"
    by blast
  from PushState_cascade [OF r] obtain r' where "r = Inr r'" by blast
  with r a n show "\<exists>r. initialize n P k ow m = Some (Inr r)"
    by (simp add: initialize_def CreateState_Sibling del: PushState.simps)
qed

lemma initialize_test_machine:
  "initialize (Suc (Suc 0)) test_program First 7 (StateMachine_new 0) = Some (Inr test_machine)"
  by (simp add: initialize_def IsNo_def StateMachine_new_def NoTransition_def
        CreateState_Sibling HasInitializeState_def GetInitializeState_def InvokeOnEnter_def
        test_program_def test_machine_def first_state_def second_state_def)


theorem initialize_once_witness:
  "initialize (Suc (Suc 0)) test_program First 7 (StateMachine_new 0) = Some (Inr test_machine) \<and>
   owner test_machine = 7 \<and>
   initialize (Suc (Suc 0)) test_program First 7 test_machine = Some (Inl assert_not_initialized) \<and>
   initialize (Suc (Suc 0)) test_program First 7
     ((StateMachine_new 0 :: (MyStates, MyEvent) StateMachine)\<lparr>state_stack := [first_state]\<rparr>)
     = Some (Inl assert_stack_empty)"
proof -
  let ?m = "(StateMachine_new 0 :: (MyStates, MyEvent) StateMachine)\<lparr>state_stack := [first_state]\<rparr>"
  have a: "IsNo (initial_transition ?m) \<and> state_stack ?m \<noteq> []"
    by (simp add: IsNo_def StateMachine_new_def NoTransition_def)
  have b: "IsNo (initial_transition (StateMachine_new 0 :: (MyStates, MyEvent) StateMachine)) \<and>
      state_stack (StateMachine_new 0 :: (MyStates, MyEvent) StateMachine) = [] \<and>
      is_cascade test_program (First # [Second]) \<and> length [Second] < Suc (Suc 0)"
    by (simp add: IsNo_def StateMachine_new_def NoTransition_def test_program_def)
  from initialize_once [of "StateMachine_new 0" "Suc (Suc 0)" test_program First 7] b
  obtain r where r: "initialize (Suc (Suc 0)) test_program First 7
      (StateMachine_new 0 :: (MyStates, MyEvent) StateMachine) = Some (Inr r)"
    by blast
  with initialize_test_machine have t: "r = test_machine" by simp
  from initialize_once [of "StateMachine_new 0" "Suc (Suc 0)" test_program First 7] r t
  have "owner test_machine = 7"
    and "initialize (Suc (Suc 0)) test_program First 7 test_machine = Some (Inl assert_not_initialized)"
    by blast+
  moreover from initialize_once [of ?m "Suc (Suc 0)" test_program First 7] a
  have "initialize (Suc (Suc 0)) test_program First 7 ?m = Some (Inl assert_stack_empty)"
    by blast
  ultimately show ?thesis using r t by simp
qed


section \<open>The depth recorded in a state\<close>

text \<open>
  C1. The recorded depth does not always equal the index in the stack:
  \<open>CreateAndPushInitialState\<close> creates every state with depth 0, the initial substates
  too. In the machine of test.cc, \<open>initialize<First>\<close> leaves \<open>Second\<close> at index 1 with
  recorded depth 0.
\<close>

theorem initial_substate_records_depth_0:
  "initialize (Suc (Suc 0)) test_program First 7 (StateMachine_new 0) = Some (Inr test_machine) \<and>
   map state_type (state_stack test_machine) = [First, Second] \<and>
   map stack_depth (state_stack test_machine) = [0, 0]"
  using initialize_test_machine
  by (simp add: test_machine_def first_state_def second_state_def)


section \<open>Replaying deferred events\<close>

text \<open>
  The run of test.cc: \<open>event_close\<close> is deferred by \<open>Second\<close>; \<open>event_open\<close> then
  replaces \<open>Second\<close> by \<open>Third\<close>, and the deferred \<open>event_close\<close> is offered again, to
  \<open>First\<close> and to \<open>Third\<close>, which finishes it; the deferred queue ends empty.
\<close>

lemma test_cc_replays_deferred_close:
  "(case process_event (Suc 0) test_program hsm_config caller_close test_machine of
      Some (Inr m2) \<Rightarrow>
        state_stack m2 = state_stack test_machine \<and>
        deferred_queue m2 = [\<lparr>event_type = event_close, event_addr = 2\<rparr>] \<and>
        (case process_event (Suc (Suc 0)) test_program hsm_config caller_open m2 of
           Some (Inr m3) \<Rightarrow>
             state_stack m3 =
               [first_state, \<lparr>state_type = Third, stack_depth = 1, state_addr = 4\<rparr>] \<and>
             deferred_queue m3 = [] \<and> event_queue m3 = [] \<and>
             drop (length (consulted (trace m2))) (consulted (trace m3)) =
               [(first_state, \<lparr>event_type = event_open, event_addr = 3\<rparr>),
                (second_state, \<lparr>event_type = event_open, event_addr = 3\<rparr>),
                (first_state, \<lparr>event_type = event_close, event_addr = 2\<rparr>),
                (\<lparr>state_type = Third, stack_depth = 1, state_addr = 4\<rparr>,
                 \<lparr>event_type = event_close, event_addr = 2\<rparr>)]
         | _ \<Rightarrow> False)
    | _ \<Rightarrow> False)"
  by code_simp

lemma replay_loop_Dispatch:
  "state_type s = Second \<Longrightarrow> event_type e = event_close \<Longrightarrow>
   Dispatch replay_loop_program cfg s e m =
     Inr (SiblingTransition Second, m\<lparr>trace := trace m @ [Dispatched s e, Reacted s e]\<rparr>)"
  by (simp add: Dispatch_def replay_loop_program_def react_def transit_def)

lemma ProcessDeferredEvent_None:
  assumes "deferred_queue m = d # ds"
    and "\<And>k. n = Suc k \<Longrightarrow>
      ProcessQueueEvent_from k P cfg 0 (m\<lparr>event_queue := d # event_queue m\<rparr>) = None"
  shows "ProcessDeferredEvent n P cfg m = None"
  unfolding ProcessDeferredEvent_def
  using assms by (subst ProcessDeferredEvent_from.simps) (simp split: nat.splits)

lemma replay_loop_diverges:
  "state_stack m = [s] \<Longrightarrow> state_type s = Second \<Longrightarrow>
   deferred_queue m = d # ds \<Longrightarrow> event_type d = event_close \<Longrightarrow>
   event_queue m = e # es \<Longrightarrow> event_type e = event_close \<Longrightarrow>
   ProcessQueueEvent_from n replay_loop_program cfg 0 m = None"
proof (induction n arbitrary: m s e es)
  case 0
  let ?m1 = "m\<lparr>trace := trace m @ [Dispatched s e, Reacted s e]\<rparr>"
  let ?ts = "\<lparr>state_type = Second, stack_depth = 0, state_addr = heap_next ?m1\<rparr>"
  let ?pm = "?m1\<lparr>state_stack := take 0 (state_stack m),
                  trace := trace ?m1 @ map OnExit (rev (drop 0 (state_stack m))),
                  heap_next := Suc (heap_next ?m1)\<rparr>"
  let ?m4 = "?pm\<lparr>state_stack := state_stack ?pm @ [?ts], trace := trace ?pm @ [OnEnter ?ts]\<rparr>"
  have d: "Dispatch replay_loop_program cfg (state_stack m ! 0) e m = Inr (SiblingTransition Second, ?m1)"
    using 0 by (simp add: replay_loop_Dispatch)
  have p: "PushState 0 replay_loop_program ?ts ?pm = Some (Inr ?m4)"
    by (intro PushState_no_initial) (simp add: replay_loop_program_def)
  have "ProcessDeferredEvent 0 replay_loop_program cfg ?m4 = None"
    using 0 by (intro ProcessDeferredEvent_None [of _ d ds]) simp_all
  with Dispatch_Sibling_step [OF "0.prems"(5) _ d, of 0] p "0.prems"(1) show ?case by simp
next
  case (Suc n)
  let ?m1 = "m\<lparr>trace := trace m @ [Dispatched s e, Reacted s e]\<rparr>"
  let ?ts = "\<lparr>state_type = Second, stack_depth = 0, state_addr = heap_next ?m1\<rparr>"
  let ?pm = "?m1\<lparr>state_stack := take 0 (state_stack m),
                  trace := trace ?m1 @ map OnExit (rev (drop 0 (state_stack m))),
                  heap_next := Suc (heap_next ?m1)\<rparr>"
  let ?m4 = "?pm\<lparr>state_stack := state_stack ?pm @ [?ts], trace := trace ?pm @ [OnEnter ?ts]\<rparr>"
  have d: "Dispatch replay_loop_program cfg (state_stack m ! 0) e m = Inr (SiblingTransition Second, ?m1)"
    using Suc.prems by (simp add: replay_loop_Dispatch)
  have p: "PushState (Suc n) replay_loop_program ?ts ?pm = Some (Inr ?m4)"
    by (intro PushState_no_initial) (simp add: replay_loop_program_def)
  have "ProcessDeferredEvent (Suc n) replay_loop_program cfg ?m4 = None"
  proof (rule ProcessDeferredEvent_None [of _ d ds])
    show "deferred_queue ?m4 = d # ds" using Suc.prems by simp
  next
    fix k
    assume "Suc n = Suc k"
    then have k: "k = n" by simp
    show "ProcessQueueEvent_from k replay_loop_program cfg 0
        (?m4\<lparr>event_queue := d # event_queue ?m4\<rparr>) = None"
      unfolding k using Suc.prems
      by (intro Suc.IH [of _ ?ts d "event_queue ?m4"]) simp_all
  qed
  with Dispatch_Sibling_step [OF Suc.prems(5) _ d, of "Suc n"] p Suc.prems(1) show ?case by simp
qed

lemma replay_loop_first_step:
  "ProcessQueueEvent n replay_loop_program hsm_config
     (deferred_one\<lparr>event_queue := [\<lparr>event_type = event_open, event_addr = 2\<rparr>], heap_next := 3\<rparr>)
   = None"
proof -
  let ?e = "\<lparr>event_type = event_open, event_addr = 2\<rparr> :: MyEvent Event"
  let ?m = "deferred_one\<lparr>event_queue := [?e], heap_next := 3\<rparr>"
  let ?m1 = "?m\<lparr>trace := trace ?m @ [Dispatched first_state ?e, Reacted first_state ?e]\<rparr>"
  let ?ts = "\<lparr>state_type = Second, stack_depth = 0, state_addr = heap_next ?m1\<rparr>"
  let ?pm = "?m1\<lparr>state_stack := take 0 (state_stack ?m),
                  trace := trace ?m1 @ map OnExit (rev (drop 0 (state_stack ?m))),
                  heap_next := Suc (heap_next ?m1)\<rparr>"
  let ?m4 = "?pm\<lparr>state_stack := state_stack ?pm @ [?ts], trace := trace ?pm @ [OnEnter ?ts]\<rparr>"
  have q: "event_queue ?m = ?e # []" by simp
  have l: "0 < length (state_stack ?m)" by (simp add: deferred_one_def started_machine_def)
  have d: "Dispatch replay_loop_program hsm_config (state_stack ?m ! 0) ?e ?m
      = Inr (SiblingTransition Second, ?m1)"
    by (simp add: Dispatch_def replay_loop_program_def react_def transit_def deferred_one_def
          started_machine_def first_state_def)
  have p: "PushState n replay_loop_program ?ts ?pm = Some (Inr ?m4)"
    by (intro PushState_no_initial) (simp add: replay_loop_program_def)
  have "ProcessDeferredEvent n replay_loop_program hsm_config ?m4 = None"
  proof (rule ProcessDeferredEvent_None [of _ close_A "[]"])
    show "deferred_queue ?m4 = [close_A]" by (simp add: deferred_one_def)
  next
    fix k
    show "ProcessQueueEvent_from k replay_loop_program hsm_config 0
        (?m4\<lparr>event_queue := close_A # event_queue ?m4\<rparr>) = None"
      by (rule replay_loop_diverges [of _ ?ts close_A "[]" close_A "event_queue ?m4"])
         (simp_all add: deferred_one_def started_machine_def close_A_def)
  qed
  with Dispatch_Sibling_step [OF q l d, of n] p show ?thesis
    by (simp add: ProcessQueueEvent_def)
qed


text \<open>
  C2. The replay recursion is not bounded by the number of deferred events.
  \<open>ProcessDeferredEvent\<close> pops a deferred event only after its dispatch has returned,
  so a replayed event that causes a transition is found again, still at the front of the
  deferred queue, by the replay that this transition starts. With one deferred
  \<open>event_close\<close> and a state \<open>Second\<close> that answers it by a transition to \<open>Second\<close>,
  \<open>process_event(event_open)\<close> returns for no amount of fuel.
\<close>

theorem nested_replay_never_returns:
  "initialize (Suc 0) replay_loop_program First 7 (StateMachine_new 0)
     = Some (Inr started_machine) \<and>
   process_event (Suc 0) replay_loop_program hsm_config caller_close started_machine
     = Some (Inr deferred_one) \<and>
   \<not> (\<exists>n r. process_event n replay_loop_program hsm_config caller_open deferred_one = Some r)"
proof (intro conjI notI)
  show "initialize (Suc 0) replay_loop_program First 7 (StateMachine_new 0)
     = Some (Inr started_machine)"
    by code_simp
  show "process_event (Suc 0) replay_loop_program hsm_config caller_close started_machine
     = Some (Inr deferred_one)"
    by code_simp
  assume "\<exists>n r. process_event n replay_loop_program hsm_config caller_open deferred_one = Some r"
  then obtain n r where
    r: "process_event n replay_loop_program hsm_config caller_open deferred_one = Some r"
    by blast
  have h: "heap_next deferred_one = 2" "event_queue deferred_one = []"
    by (simp_all add: deferred_one_def started_machine_def)
  show False
  proof (cases n)
    case 0
    with r h show False by (simp add: process_event_def)
  next
    case (Suc k)
    with r h replay_loop_first_step [of k] show False
      by (simp add: process_event_def Clone_def caller_open_def)
  qed
qed

text \<open>
  C3. With \<open>event_close\<close> deferred twice (A, then B), \<open>event_open\<close> causes the
  transition to \<open>Second\<close> and the replay of A, which \<open>Second\<close> answers by a transition to
  \<open>Third\<close>. The replay started by that second transition offers A again and then B, both
  to \<open>Third\<close>, inside the dispatch of A, and empties the deferred queue; the outer loop then
  calls \<open>pop_front\<close> on the empty deferred queue.
\<close>

theorem nested_replay_repeats_A_and_pops_empty_queue:
  "initialize (Suc 0) nested_replay_program First 7 (StateMachine_new 0)
     = Some (Inr started_machine) \<and>
   process_event (Suc 0) nested_replay_program hsm_config caller_close started_machine
     = Some (Inr deferred_one) \<and>
   process_event (Suc 0) nested_replay_program hsm_config caller_close deferred_one
     = Some (Inr deferred_two) \<and>
   deferred_queue deferred_two = [close_A, close_B] \<and>
   process_event (Suc (Suc (Suc 0))) nested_replay_program hsm_config caller_open deferred_two
     = Some (Inl undefined_pop_front) \<and>
   ProcessQueueEvent (Suc (Suc 0)) nested_replay_program hsm_config
       (deferred_two\<lparr>event_queue := [open_E], heap_next := 4\<rparr>)
     = ProcessDeferredEvent (Suc (Suc 0)) nested_replay_program hsm_config after_transition \<and>
   (case ProcessQueueEvent (Suc 0) nested_replay_program hsm_config
           (after_transition\<lparr>event_queue := close_A # event_queue after_transition\<rparr>) of
      Some (Inr r) \<Rightarrow>
        deferred_queue r = [] \<and>
        drop (length (consulted (trace after_transition))) (consulted (trace r)) =
          [(\<lparr>state_type = Second, stack_depth = 0, state_addr = 4\<rparr>, close_A),
           (\<lparr>state_type = Third, stack_depth = 0, state_addr = 5\<rparr>, close_A),
           (\<lparr>state_type = Third, stack_depth = 0, state_addr = 5\<rparr>, close_B)]
    | _ \<Rightarrow> False)"
  by code_simp

text \<open>
  C4. A state that answers by a sibling transition does not always end the consultation
  for the event. In the variant of test.cc where \<open>Third\<close> answers \<open>event_close\<close> by
  \<open>transit<First>()\<close>, the deferred \<open>event_close\<close> is replayed after \<open>event_open\<close>:
  \<open>First\<close> passes it on and \<open>Third\<close>, at depth 1, answers by the transition. The replay
  started by that transition finds the event still at the front of the deferred queue and
  dispatches it again, inside its own dispatch: it is offered to \<open>First\<close>, to the new
  \<open>First\<close> at depth 1 and to the new \<open>Second\<close> at index 2, deeper than the state that
  answered.
\<close>

theorem replayed_event_consulted_below_answering_state:
  "initialize (Suc (Suc 0)) reentry_program First 7 (StateMachine_new 0)
     = Some (Inr test_machine) \<and>
   (case process_event (Suc 0) reentry_program hsm_config caller_close test_machine of
      Some (Inr m2) \<Rightarrow>
        deferred_queue m2 = [\<lparr>event_type = event_close, event_addr = 2\<rparr>] \<and>
        (case process_event (Suc (Suc (Suc 0))) reentry_program hsm_config caller_open m2 of
           Some (Inr m3) \<Rightarrow>
             state_stack m3 =
               [first_state,
                \<lparr>state_type = First, stack_depth = 1, state_addr = 5\<rparr>,
                \<lparr>state_type = Second, stack_depth = 0, state_addr = 6\<rparr>] \<and>
             drop (length (consulted (trace m2))) (consulted (trace m3)) =
               [(first_state, \<lparr>event_type = event_open, event_addr = 3\<rparr>),
                (second_state, \<lparr>event_type = event_open, event_addr = 3\<rparr>),
                (first_state, \<lparr>event_type = event_close, event_addr = 2\<rparr>),
                (third_state, \<lparr>event_type = event_close, event_addr = 2\<rparr>),
                (first_state, \<lparr>event_type = event_close, event_addr = 2\<rparr>),
                (\<lparr>state_type = First, stack_depth = 1, state_addr = 5\<rparr>,
                 \<lparr>event_type = event_close, event_addr = 2\<rparr>),
                (\<lparr>state_type = Second, stack_depth = 0, state_addr = 6\<rparr>,
                 \<lparr>event_type = event_close, event_addr = 2\<rparr>)]
         | _ \<Rightarrow> False)
    | _ \<Rightarrow> False)"
  by code_simp

end
